theory Spec2Isabelle
  imports Main "HOL-Library.AList" "HOL-Library.Log_Nat"
begin

section \<open>Values, declarations and the style tree\<close>

text \<open>
  The development embeds \<^verbatim>\<open>@here/harp-datasource-protocol/lib/StyleSetEvaluator.ts\<close>; line
  numbers refer to this file.
\<close>

subsection \<open>Numbers\<close>

text \<open>
  A JavaScript number is an IEEE 754 double: a finite value, one of the two infinities, or
  \<^verbatim>\<open>NaN\<close>. A finite double is kept as the rational number it denotes; \<open>Finite r\<close> is a number of
  the program when \<open>r\<close> is a double (\<open>isDouble\<close> below). The two zeros are one value: the
  evaluator adds numbers, takes absolute values, compares with zero and tests truthiness, and
  none of these tells \<^verbatim>\<open>-0\<close> from \<^verbatim>\<open>0\<close>.
\<close>

datatype number = Finite rat | PosInfinity | NegInfinity | NaN

text \<open>
  Rounding a rational to the nearest double, ties to the even significand. \<open>pow2 k\<close> is
  the power of two with the exponent \<open>k\<close>, and \<open>floorLog2 a\<close> the exponent \<open>e\<close> with
  \<open>pow2 e \<le> a < pow2 (e + 1)\<close>, for \<open>a > 0\<close>. A double has a significand of 53 bits, so the
  doubles between \<open>pow2 e\<close> and \<open>pow2 (e + 1)\<close> are \<open>pow2 (e - 52)\<close> apart; below
  \<open>pow2 (- 1022)\<close>, where the numbers are subnormal, they are \<open>pow2 (- 1074)\<close> apart; a result
  of \<open>pow2 1024\<close> or more is an infinity.
\<close>

definition pow2 :: "int \<Rightarrow> rat" where
  "pow2 k = (if 0 \<le> k then 2 ^ nat k else 1 / 2 ^ nat (- k))"

definition floorLog2 :: "rat \<Rightarrow> int" where
  "floorLog2 a = (if 1 \<le> a then bitlen \<lfloor>a\<rfloor> - 1 else - bitlen (\<lceil>1 / a\<rceil> - 1))"

definition roundHalfEven :: "rat \<Rightarrow> int" where
  "roundHalfEven q =
     (let f = \<lfloor>q\<rfloor>; r = q - of_int f
      in if r < 1 / 2 then f else if 1 / 2 < r then f + 1 else if even f then f else f + 1)"

definition roundDouble :: "rat \<Rightarrow> number" where
  "roundDouble x =
     (if x = 0 then Finite 0
      else
        (let a = \<bar>x\<bar>;
             ulp = pow2 (max (floorLog2 a) (- 1022) - 52);
             r = of_int (roundHalfEven (a / ulp)) * ulp
         in if pow2 1024 \<le> r then (if x < 0 then NegInfinity else PosInfinity)
            else Finite (if x < 0 then - r else r)))"

fun isDouble :: "number \<Rightarrow> bool" where
  "isDouble (Finite r) = (roundDouble r = Finite r)"
| "isDouble x = True"

text \<open>
  The operations on numbers the evaluator uses: \<^verbatim>\<open>a + b\<close> (also behind \<^verbatim>\<open>+=\<close> and \<^verbatim>\<open>++\<close>),
  \<^verbatim>\<open>Math.abs(a)\<close>, \<^verbatim>\<open>a < 0\<close>, and the truthiness of a number.
\<close>

fun numberAdd :: "number \<Rightarrow> number \<Rightarrow> number" where
  "numberAdd NaN y = NaN"
| "numberAdd x NaN = NaN"
| "numberAdd PosInfinity NegInfinity = NaN"
| "numberAdd NegInfinity PosInfinity = NaN"
| "numberAdd PosInfinity y = PosInfinity"
| "numberAdd x PosInfinity = PosInfinity"
| "numberAdd NegInfinity y = NegInfinity"
| "numberAdd x NegInfinity = NegInfinity"
| "numberAdd (Finite a) (Finite b) = roundDouble (a + b)"

fun Math_abs :: "number \<Rightarrow> number" where
  "Math_abs (Finite a) = Finite \<bar>a\<bar>"
| "Math_abs PosInfinity = PosInfinity"
| "Math_abs NegInfinity = PosInfinity"
| "Math_abs NaN = NaN"

fun lessThanZero :: "number \<Rightarrow> bool" where
  "lessThanZero (Finite a) = (a < 0)"
| "lessThanZero NegInfinity = True"
| "lessThanZero PosInfinity = False"
| "lessThanZero NaN = False"

fun numberTruthy :: "number \<Rightarrow> bool" where
  "numberTruthy (Finite a) = (a \<noteq> 0)"
| "numberTruthy NaN = False"
| "numberTruthy PosInfinity = True"
| "numberTruthy NegInfinity = True"

subsection \<open>Values and objects\<close>

text \<open>
  Modelled from the spec: the type \<^verbatim>\<open>Value\<close> of the module \<^verbatim>\<open>Expr\<close>, whose source is
  missing. The spec gives the values of feature attributes as string, number, boolean or
  null. \<^verbatim>\<open>undefined\<close> is a value of its own, since the evaluator tests for it where an
  attribute is absent or an expression evaluates to it (lines 271 and 319).
\<close>

datatype val = VUndefined | VNull | VBool bool | VNum number | VStr string

text \<open>
  A JavaScript object, as far as the evaluator looks at one: its own enumerable properties,
  in the order in which a \<^verbatim>\<open>for\<close>-\<^verbatim>\<open>in\<close> loop visits them, and whether its prototype is \<^verbatim>\<open>null\<close>.
  An object with a prototype inherits from \<^verbatim>\<open>Object.prototype\<close>, which has no enumerable
  property, gives the method \<^verbatim>\<open>hasOwnProperty\<close> and the setter \<^verbatim>\<open>__proto__\<close>. The loop visits the
  names that are array indexes first, in ascending order, and the other names in the order
  of their creation.
\<close>

record 'v object =
  ownProperties :: "(string \<times> 'v) list"
  nullPrototype :: bool

text \<open>The object \<^verbatim>\<open>{}\<close>, and a plain object with the given properties.\<close>

definition plainObject :: "(string \<times> 'v) list \<Rightarrow> 'v object" where
  "plainObject props = \<lparr>ownProperties = props, nullPrototype = False\<rparr>"

text \<open>
  \<^verbatim>\<open>obj.hasOwnProperty(name)\<close> throws a \<^verbatim>\<open>TypeError\<close> when \<^verbatim>\<open>obj.hasOwnProperty\<close> is not a
  function: when the object has no prototype to inherit the method from, or has a property
  of this name of its own (no value of the model is a function).
\<close>

definition hasOwnPropertyThrows :: "'v object \<Rightarrow> bool" where
  "hasOwnPropertyThrows obj \<longleftrightarrow>
     nullPrototype obj \<or> map_of (ownProperties obj) ''hasOwnProperty'' \<noteq> None"

text \<open>A thrown JavaScript value.\<close>

datatype error = Error string

text \<open>
  What \<^verbatim>\<open>processAttribute\<close> tells apart in an attribute declaration: a JSON expression
  (\<^verbatim>\<open>isJsonExpr\<close>), the definition of an interpolated property
  (\<^verbatim>\<open>isInterpolatedPropertyDefinition\<close>), or a plain value. The two predicates belong
  to the modules \<^verbatim>\<open>Expr\<close> and \<^verbatim>\<open>InterpolatedProperty\<close>, whose sources are missing, so the
  three kinds are the constructors of the type; \<open>'j\<close> is the JSON form of an expression or of
  an interpolation.
\<close>

datatype 'j attrValue = Static val | JsonExprValue 'j | InterpolatedDefinition 'j

text \<open>A \<^verbatim>\<open>when\<close> condition is a string (\<^verbatim>\<open>Expr.parse\<close>) or an array (\<^verbatim>\<open>Expr.fromJSON\<close>).\<close>

datatype 'j whenDecl = WhenString string | WhenJson 'j

text \<open>
  The declared fields of a style rule (\<^verbatim>\<open>Style & StyleSelector\<close>) that the evaluator reads,
  without the nested \<^verbatim>\<open>styles\<close>. \<open>None\<close> is an absent field.
\<close>

record 'j styleDecl =
  when' :: "'j whenDecl option"
  technique :: "string option"
  final :: "bool option"
  renderOrder :: "number option"
  renderOrderOffset :: "'j attrValue option"
  labelProperty :: "'j attrValue option"
  secondaryRenderOrder :: "'j attrValue option"
  attr :: "'j attrValue object option"
  renderOrderBiasGroup :: "string option"
  renderOrderBiasRange :: "(number \<times> number) option"

text \<open>
  A value stored in a technique: a plain value, a compiled expression (\<open>'x\<close>, the class
  \<^verbatim>\<open>Expr\<close>) or an interpolated property (\<open>'p\<close>). A technique is an object of such values.
\<close>

datatype ('x, 'p) propValue = PValue val | PExpr 'x | PInterp 'p

type_synonym ('x, 'p) technique = "('x, 'p) propValue object"

text \<open>
  \<^verbatim>\<open>technique[attrName] = attrValue\<close>. Assigning to a name that is present replaces its value
  in place and assigning to a new name appends the property (\<^const>\<open>AList.update\<close>); a new
  name that is an array index is appended like any other, so that for a technique with such
  attribute names the list has the properties of the object in the order of their creation.
  The name \<^verbatim>\<open>__proto__\<close> is the exception: on an object with a prototype the assignment calls
  the setter of \<^verbatim>\<open>Object.prototype\<close>, which creates no property; it replaces the prototype
  when the value is \<^verbatim>\<open>null\<close> or an object and does nothing otherwise. An object put in as
  prototype (an expression or an interpolated property) inherits from \<^verbatim>\<open>Object.prototype\<close>
  itself, so only \<^verbatim>\<open>null\<close> leaves the technique without a prototype, and then \<^verbatim>\<open>__proto__\<close> is
  a name like any other.
\<close>

definition assignProperty ::
  "string \<Rightarrow> ('x, 'p) propValue \<Rightarrow> ('x, 'p) technique \<Rightarrow> ('x, 'p) technique" where
  "assignProperty attrName attrValue obj =
     (if attrName = ''__proto__'' \<and> \<not> nullPrototype obj
      then (if attrValue = PValue VNull then obj\<lparr>nullPrototype := True\<rparr> else obj)
      else obj\<lparr>ownProperties := AList.update attrName attrValue (ownProperties obj)\<rparr>)"

text \<open>
  \<^verbatim>\<open>StyleInternalParams\<close>: the caches the evaluator attaches to a rule. The fields carry the
  source's names with \<open>p\<close> in front of the leading underscore. \<^verbatim>\<open>_dynamicTechniques\<close> is a
  \<^verbatim>\<open>Map<string, IndexedTechnique>\<close>, kept as an association list in insertion order.
\<close>

record ('x, 'p) styleInternal =
  p_whenExpr :: "'x option"
  p_staticAttributes :: "(string \<times> val) list option"
  p_dynamicTechniqueAttributes :: "(string \<times> 'x) list option"
  p_dynamicFeatureAttributes :: "(string \<times> ('x, 'p) propValue) list option"
  p_dynamicForwaredAttributes :: "(string \<times> ('x, 'p) propValue) list option"
  p_dynamicTechniques :: "(string \<times> ('x, 'p) technique) list option"
  p_staticTechnique :: "('x, 'p) technique option"
  p_styleSetIndex :: "nat option"

definition noInternal :: "('x, 'p) styleInternal" where
  "noInternal =
     \<lparr>p_whenExpr = None, p_staticAttributes = None, p_dynamicTechniqueAttributes = None,
      p_dynamicFeatureAttributes = None, p_dynamicForwaredAttributes = None,
      p_dynamicTechniques = None, p_staticTechnique = None, p_styleSetIndex = None\<rparr>"

text \<open>\<^verbatim>\<open>InternalStyle\<close>: a rule of the evaluator's own tree.\<close>

datatype ('j, 'x, 'p) style =
  Style (decl: "'j styleDecl") (internal: "('x, 'p) styleInternal")
        (styles: "('j, 'x, 'p) style list option")

text \<open>
  \<^verbatim>\<open>StyleDeclaration\<close>, the input of the constructor: a rule, or a reference to a named
  style (\<^verbatim>\<open>isReference\<close>).
\<close>

datatype 'j StyleDeclaration =
  Reference string
| Declaration "'j styleDecl" "'j StyleDeclaration list option"

text \<open>The rules of a tree in pre-order, each with its subtree.\<close>

fun allStyles :: "('j, 'x, 'p) style \<Rightarrow> ('j, 'x, 'p) style list"
and allStylesOf :: "('j, 'x, 'p) style list \<Rightarrow> ('j, 'x, 'p) style list" where
  "allStyles (Style d n kids) =
     Style d n kids # (case kids of None \<Rightarrow> [] | Some cs \<Rightarrow> allStylesOf cs)"
| "allStylesOf [] = []"
| "allStylesOf (s # ss) = allStyles s @ allStylesOf ss"

section \<open>Construction: cloning and default render orders\<close>

text \<open>
  \<^verbatim>\<open>cloneStyle\<close> (lines 93-106): a reference has no clone; a rule is copied with the clones
  of its children, the children without a clone filtered out.
\<close>

fun cloneStyle :: "'j StyleDeclaration \<Rightarrow> ('j, 'x, 'p) style option"
and cloneStyles :: "'j StyleDeclaration list \<Rightarrow> ('j, 'x, 'p) style list" where
  "cloneStyle (Reference r) = None"
| "cloneStyle (Declaration d kids) =
     Some (Style d noInternal
       (case kids of None \<Rightarrow> None | Some ks \<Rightarrow> Some (cloneStyles ks)))"
| "cloneStyles [] = []"
| "cloneStyles (k # ks) =
     (case cloneStyle k of None \<Rightarrow> cloneStyles ks | Some s \<Rightarrow> s # cloneStyles ks)"

text \<open>
  What the evaluator sends to its logger: the warning of the constructor (with the rule it
  is about) and the message of a failed \<^verbatim>\<open>when\<close> condition (with the condition and the
  error).
\<close>

datatype 'j logEntry =
  WarnRenderOrderOverridden "'j styleDecl"
| LogWhenFailed "'j whenDecl" error

text \<open>
  The variables the closure \<^verbatim>\<open>computeDefaultRenderOrder\<close> updates: the two counters of the
  constructor, \<^verbatim>\<open>this.m_renderOrderBiasGroups\<close> (a \<^verbatim>\<open>Map<string, number>\<close>, kept as an
  association list) and the messages sent to the logger. \<^verbatim>\<open>styleSetIndex\<close> counts the leaf
  rules of the tree in front of it, one object each, and so stays far below the first integer
  a double cannot hold; it is a natural number.
\<close>

record 'j ctorState =
  techniqueRenderOrder :: number
  styleSetIndex :: nat
  biasGroups :: "(string \<times> number) list"
  warned :: "'j logEntry list"

definition warnOverridden :: "'j styleDecl \<Rightarrow> 'j ctorState \<Rightarrow> 'j ctorState" where
  "warnOverridden d st =
     (if renderOrder d \<noteq> None
      then st\<lparr>warned := warned st @ [WarnRenderOrderOverridden d]\<rparr> else st)"

text \<open>
  Lines 109-147, the bias group of one rule. The group's recorded order is looked up only for
  a non-empty group name. A rule with a range whose group has no recorded order reserves the
  block and records its order; otherwise the recorded order is taken over when it is truthy,
  that is, when it is neither zero nor \<^verbatim>\<open>NaN\<close>.
\<close>

definition applyRenderOrderBias ::
  "'j styleDecl \<Rightarrow> 'j ctorState \<Rightarrow> 'j styleDecl \<times> 'j ctorState" where
  "applyRenderOrderBias d st =
     (case renderOrderBiasGroup d of
        None \<Rightarrow> (d, st)
      | Some g \<Rightarrow>
          (let renderOrderBiasGroupOrder = (if g \<noteq> [] then map_of (biasGroups st) g else None)
           in case (renderOrderBiasRange d, renderOrderBiasGroupOrder) of
                (Some (minRange, maxRange), None) \<Rightarrow>
                  (let st1 = warnOverridden d st;
                       order = (if lessThanZero minRange
                                then numberAdd (techniqueRenderOrder st1) (Math_abs minRange)
                                else techniqueRenderOrder st1);
                       st2 = st1\<lparr>techniqueRenderOrder :=
                                   numberAdd (techniqueRenderOrder st1)
                                     (numberAdd (Math_abs minRange) maxRange)\<rparr>;
                       st3 = (if g \<noteq> []
                              then st2\<lparr>biasGroups := AList.update g order (biasGroups st2)\<rparr>
                              else st2)
                   in (d\<lparr>renderOrder := Some order\<rparr>,
                       st3\<lparr>techniqueRenderOrder :=
                             numberAdd (techniqueRenderOrder st3) (Finite 1)\<rparr>))
              | (_, Some order) \<Rightarrow>
                  (if numberTruthy order
                   then (d\<lparr>renderOrder := Some order\<rparr>, warnOverridden d st)
                   else (d, st))
              | (None, None) \<Rightarrow> (d, st)))"

text \<open>
  \<^verbatim>\<open>computeDefaultRenderOrder\<close> (lines 108-159) and its loop over the children. The rule is
  updated in place in the source; here the updated rule is returned.
\<close>

fun computeDefaultRenderOrder ::
  "('j, 'x, 'p) style \<Rightarrow> 'j ctorState \<Rightarrow> ('j, 'x, 'p) style \<times> 'j ctorState"
and computeDefaultRenderOrders ::
  "('j, 'x, 'p) style list \<Rightarrow> 'j ctorState \<Rightarrow>
     ('j, 'x, 'p) style list \<times> 'j ctorState" where
  "computeDefaultRenderOrder (Style d n kids) st =
     (case applyRenderOrderBias d st of
        (d1, st1) \<Rightarrow>
          (case kids of
             Some cs \<Rightarrow>
               (case computeDefaultRenderOrders cs st1 of
                  (cs', st2) \<Rightarrow> (Style d1 n (Some cs'), st2))
           | None \<Rightarrow>
               (let n1 = n\<lparr>p_styleSetIndex := Some (styleSetIndex st1)\<rparr>;
                    st2 = st1\<lparr>styleSetIndex := styleSetIndex st1 + 1\<rparr>
                in if technique d1 \<noteq> None \<and> renderOrder d1 = None
                   then (Style (d1\<lparr>renderOrder := Some (techniqueRenderOrder st2)\<rparr>) n1 None,
                         st2\<lparr>techniqueRenderOrder :=
                               numberAdd (techniqueRenderOrder st2) (Finite 1)\<rparr>)
                   else (Style d1 n1 None, st2))))"
| "computeDefaultRenderOrders [] st = ([], st)"
| "computeDefaultRenderOrders (s # ss) st =
     (case computeDefaultRenderOrder s st of
        (s', st1) \<Rightarrow>
          (case computeDefaultRenderOrders ss st1 of
             (ss', st2) \<Rightarrow> (s' # ss', st2)))"

text \<open>
  The evaluator: its private tree, \<^verbatim>\<open>m_renderOrderBiasGroups\<close>, \<^verbatim>\<open>m_techniques\<close> and what
  it has sent to the logger so far. The expression pool interns expressions and the map
  \<^verbatim>\<open>m_cachedResults\<close> is cleared at the start of every pass; both live inside the expression
  engine, which is a parameter of the model (see below).
\<close>

record ('j, 'x, 'p) evaluator =
  styleSet :: "('j, 'x, 'p) style list"
  m_renderOrderBiasGroups :: "(string \<times> number) list"
  m_techniques :: "('x, 'p) technique list"
  logged :: "'j logEntry list"

text \<open>
  The constructor (lines 89-165). The top-level declarations are cloned with \<^verbatim>\<open>map\<close> and
  not filtered, so a reference at the top level leaves \<^verbatim>\<open>undefined\<close> in the array and the
  loop of lines 161-163 throws a \<^verbatim>\<open>TypeError\<close> when it reads a field of it.
\<close>

fun constructorLoop ::
  "('j, 'x, 'p) style option list \<Rightarrow> 'j ctorState \<Rightarrow>
     error + (('j, 'x, 'p) style list \<times> 'j ctorState)" where
  "constructorLoop [] st = Inr ([], st)"
| "constructorLoop (None # rest) st =
     Inl (Error ''TypeError: Cannot read property renderOrderBiasGroup of undefined'')"
| "constructorLoop (Some s # rest) st =
     (case computeDefaultRenderOrder s st of
        (s', st1) \<Rightarrow>
          (case constructorLoop rest st1 of
             Inl e \<Rightarrow> Inl e
           | Inr (ss', st2) \<Rightarrow> Inr (s' # ss', st2)))"

definition initialCtorState :: "'j ctorState" where
  "initialCtorState =
     \<lparr>techniqueRenderOrder = Finite 0, styleSetIndex = 0, biasGroups = [], warned = []\<rparr>"

definition StyleSetEvaluator ::
  "'j StyleDeclaration list \<Rightarrow> error + ('j, 'x, 'p) evaluator" where
  "StyleSetEvaluator decls =
     (case constructorLoop (map cloneStyle decls) initialCtorState of
        Inl e \<Rightarrow> Inl e
      | Inr (ss, st) \<Rightarrow>
          Inr \<lparr>styleSet = ss, m_renderOrderBiasGroups = biasGroups st,
               m_techniques = [], logged = warned st\<rparr>)"

section \<open>The expression engine and the technique descriptors\<close>

text \<open>
  \<^verbatim>\<open>TechniqueAttrType\<close>, as \<^verbatim>\<open>processAttribute\<close> switches on it (lines 330-357): the three
  members it names and one constructor for whatever takes the \<^verbatim>\<open>default\<close> branch. The spec
  calls the first two FeatureScope and TechniqueScope.
\<close>

datatype TechniqueAttrType = Feature | Technique | DynamicMaterial | OtherAttrType

text \<open>
  Modelled from the spec: the class \<^verbatim>\<open>MapEnv\<close> of the module \<^verbatim>\<open>Expr\<close>, whose source is
  missing. The spec describes the environment of a feature as a mapping from attribute name
  to value.
\<close>

type_synonym MapEnv = "string \<rightharpoonup> val"

text \<open>
  The evaluator calls into modules whose sources are missing (\<^verbatim>\<open>Expr\<close>, \<^verbatim>\<open>ExprPool\<close>,
  \<^verbatim>\<open>InterpolatedProperty\<close>, and \<^verbatim>\<open>techniqueAttrType\<close> of \<^verbatim>\<open>TechniqueDescriptor\<close>, applied to
  the registry \<^verbatim>\<open>techniqueDescriptors\<close>). What it calls are parameters of the model, one
  record of functions that every operation of the evaluator takes as its first argument:
  \<^item> \<open>Expr_parse\<close> is \<^verbatim>\<open>Expr.parse(s).intern(pool)\<close> and \<open>Expr_fromJSON\<close> is
    \<^verbatim>\<open>Expr.fromJSON(j).intern(pool)\<close>; either returns the pooled expression or throws.
    Interning returns one instance for structurally equal expressions, which is equality of
    \<open>'x\<close> here.
  \<^item> \<open>Expr_evaluate\<close> is \<^verbatim>\<open>expr.evaluate(env, this.m_cachedResults)\<close>; it returns a value
    or throws. The cache is cleared at the start of each pass and holds results for the
    environment of that pass only, so the outcome is a function of the expression and the
    environment.
  \<^item> \<open>createInterpolatedProperty\<close> returns the property or \<^verbatim>\<open>undefined\<close>.
  \<^item> \<open>techniqueAttrType t a\<close> is \<^verbatim>\<open>techniqueAttrType(a, techniqueDescriptors[t] ||
    emptyTechniqueDescriptor)\<close> for the technique name \<open>t\<close> of the rule.

  Two functions of the language come with them, since the text they produce for a number
  (the shortest decimal that reads back as the same double) is not modelled:
  \<^item> \<open>JSON_stringify\<close> is \<^verbatim>\<open>JSON.stringify\<close> on a value other than \<^verbatim>\<open>undefined\<close>;
  \<^item> \<open>Number_toString\<close> is \<^verbatim>\<open>String\<close> on a number.
\<close>

record ('j, 'x, 'p) engine =
  Expr_parse :: "string \<Rightarrow> error + 'x"
  Expr_fromJSON :: "'j \<Rightarrow> error + 'x"
  Expr_evaluate :: "'x \<Rightarrow> MapEnv \<Rightarrow> error + val"
  createInterpolatedProperty :: "'j \<Rightarrow> 'p option"
  techniqueAttrType :: "string option \<Rightarrow> string \<Rightarrow> TechniqueAttrType"
  JSON_stringify :: "val \<Rightarrow> string"
  Number_toString :: "number \<Rightarrow> string"

text \<open>JavaScript truthiness, as the negation in line 234 applies it to the value of a condition.\<close>

fun truthy :: "val \<Rightarrow> bool" where
  "truthy VUndefined = False"
| "truthy VNull = False"
| "truthy (VBool b) = b"
| "truthy (VNum x) = numberTruthy x"
| "truthy (VStr s) = (s \<noteq> [])"

section \<open>Cache keys\<close>

text \<open>\<^verbatim>\<open>Array.prototype.join\<close>.\<close>

fun joinWith :: "string \<Rightarrow> string list \<Rightarrow> string" where
  "joinWith sep [] = []"
| "joinWith sep [x] = x"
| "joinWith sep (x # y # ys) = x @ sep @ joinWith sep (y # ys)"

text \<open>
  The key of lines 269-277: \<^verbatim>\<open>"U"\<close> for \<^verbatim>\<open>undefined\<close>, \<^verbatim>\<open>JSON.stringify\<close> for every other
  value, joined by the character with code 0.
\<close>

definition dynamicAttrKey :: "('j, 'x, 'p) engine \<Rightarrow> (string \<times> val) list \<Rightarrow> string" where
  "dynamicAttrKey E dynamicAttributes =
     joinWith [CHR 0x00]
       (map (\<lambda>(attrName, attrValue).
               if attrValue = VUndefined then ''U'' else JSON_stringify E attrValue)
          dynamicAttributes)"

text \<open>
  \<^verbatim>\<open>makeCacheKey(style._styleSetIndex!, dynamicAttrKey)\<close> (lines 278 and 440-442). The index
  is set for every leaf by the constructor; \<^verbatim>\<open>String(undefined)\<close> is written out for a rule
  that has none.
\<close>

definition makeCacheKey :: "('j, 'x, 'p) engine \<Rightarrow> nat option \<Rightarrow> string \<Rightarrow> string" where
  "makeCacheKey E idx key =
     joinWith '':''
       [case idx of None \<Rightarrow> ''undefined'' | Some i \<Rightarrow> Number_toString E (Finite (of_nat i)), key]"

section \<open>Matching a feature against the tree\<close>

text \<open>
  Lines 223-246 of \<^verbatim>\<open>processStyle\<close>: the condition of a rule. The expression is compiled on
  first use (\<open>compileWhen\<close>, lines 226-233) and kept in \<^verbatim>\<open>_whenExpr\<close>; an exception from
  compiling or from evaluating is caught, logged, and the rule does not match. The result is
  whether the walk goes on into the rule, the updated cache, and the messages logged.
\<close>

definition compileWhen ::
  "('j, 'x, 'p) engine \<Rightarrow> 'j whenDecl \<Rightarrow> ('x, 'p) styleInternal \<Rightarrow> error + 'x" where
  "compileWhen E w n =
     (case p_whenExpr n of
        Some x \<Rightarrow> Inr x
      | None \<Rightarrow>
          (case w of
             WhenJson j \<Rightarrow> Expr_fromJSON E j
           | WhenString str \<Rightarrow> Expr_parse E str))"

definition whenMatches ::
  "('j, 'x, 'p) engine \<Rightarrow> MapEnv \<Rightarrow> 'j styleDecl \<Rightarrow> ('x, 'p) styleInternal \<Rightarrow>
     bool \<times> ('x, 'p) styleInternal \<times> 'j logEntry list" where
  "whenMatches E env d n =
     (case when' d of
        None \<Rightarrow> (True, n, [])
      | Some w \<Rightarrow>
          (case compileWhen E w n of
             Inl err \<Rightarrow> (False, n, [LogWhenFailed w err])
           | Inr x \<Rightarrow>
               (case Expr_evaluate E x env of
                  Inl err \<Rightarrow> (False, n\<lparr>p_whenExpr := Some x\<rparr>, [LogWhenFailed w err])
                | Inr v \<Rightarrow> (truthy v, n\<lparr>p_whenExpr := Some x\<rparr>, []))))"

text \<open>
  The four arrays \<^verbatim>\<open>checkStyleDynamicAttributes\<close> fills (they alias the fields of the rule
  set in lines 305-308).
\<close>

record ('x, 'p) attrLists =
  staticAttributes :: "(string \<times> val) list"
  dynamicTechniqueAttributes :: "(string \<times> 'x) list"
  dynamicFeatureAttributes :: "(string \<times> ('x, 'p) propValue) list"
  dynamicForwardedAttributes :: "(string \<times> ('x, 'p) propValue) list"

text \<open>\<^verbatim>\<open>processAttribute\<close> (lines 318-362); \<open>t\<close> is \<^verbatim>\<open>style.technique\<close>.\<close>

definition processAttribute ::
  "('j, 'x, 'p) engine \<Rightarrow> string option \<Rightarrow> string \<times> 'j attrValue \<Rightarrow> ('x, 'p) attrLists \<Rightarrow>
     error + ('x, 'p) attrLists" where
  "processAttribute E t a L =
     (case a of
        (attrName, attrValue) \<Rightarrow>
          (case attrValue of
             Static v \<Rightarrow>
               (if v = VUndefined then Inr L
                else Inr (L\<lparr>staticAttributes := staticAttributes L @ [(attrName, v)]\<rparr>))
           | JsonExprValue j \<Rightarrow>
               (case Expr_fromJSON E j of
                  Inl e \<Rightarrow> Inl e
                | Inr expr \<Rightarrow>
                    (case techniqueAttrType E t attrName of
                       Feature \<Rightarrow>
                         Inr (L\<lparr>dynamicFeatureAttributes :=
                                  dynamicFeatureAttributes L @ [(attrName, PExpr expr)]\<rparr>)
                     | Technique \<Rightarrow>
                         Inr (L\<lparr>dynamicTechniqueAttributes :=
                                  dynamicTechniqueAttributes L @ [(attrName, expr)]\<rparr>)
                     | DynamicMaterial \<Rightarrow> Inr L
                     | OtherAttrType \<Rightarrow> Inr L))
           | InterpolatedDefinition j \<Rightarrow>
               (case createInterpolatedProperty E j of
                  None \<Rightarrow> Inr L
                | Some interpolatedProperty \<Rightarrow>
                    (case techniqueAttrType E t attrName of
                       Feature \<Rightarrow>
                         Inr (L\<lparr>dynamicFeatureAttributes :=
                                  dynamicFeatureAttributes L @
                                    [(attrName, PInterp interpolatedProperty)]\<rparr>)
                     | DynamicMaterial \<Rightarrow>
                         Inr (L\<lparr>dynamicForwardedAttributes :=
                                  dynamicForwardedAttributes L @
                                    [(attrName, PInterp interpolatedProperty)]\<rparr>)
                     | Technique \<Rightarrow>
                         Inr (L\<lparr>dynamicForwardedAttributes :=
                                  dynamicForwardedAttributes L @
                                    [(attrName, PInterp interpolatedProperty)]\<rparr>)
                     | OtherAttrType \<Rightarrow> Inr L))))"

text \<open>
  A run of \<^verbatim>\<open>processAttribute\<close> calls. An exception ends it; what was pushed before stays
  in the arrays.
\<close>

fun processAttributeRun ::
  "('j, 'x, 'p) engine \<Rightarrow> string option \<Rightarrow> (string \<times> 'j attrValue) list \<Rightarrow>
     ('x, 'p) attrLists \<Rightarrow> error option \<times> ('x, 'p) attrLists" where
  "processAttributeRun E t [] L = (None, L)"
| "processAttributeRun E t (a # as) L =
     (case processAttribute E t a L of
        Inl e \<Rightarrow> (Some e, L)
      | Inr L1 \<Rightarrow> processAttributeRun E t as L1)"

text \<open>
  The four calls of lines 365-373. A call with \<^verbatim>\<open>undefined\<close> returns at once, so an absent
  field makes no entry.
\<close>

definition fixedAttributes :: "'j styleDecl \<Rightarrow> (string \<times> 'j attrValue) list" where
  "fixedAttributes style2 =
     (case renderOrder style2 of None \<Rightarrow> [] | Some r \<Rightarrow> [(''renderOrder'', Static (VNum r))]) @
     (case renderOrderOffset style2 of None \<Rightarrow> [] | Some v \<Rightarrow> [(''renderOrderOffset'', v)]) @
     (case labelProperty style2 of None \<Rightarrow> [] | Some v \<Rightarrow> [(''label'', v)]) @
     (case secondaryRenderOrder style2 of None \<Rightarrow> [] | Some v \<Rightarrow> [(''secondaryRenderOrder'', v)])"

text \<open>
  \<^verbatim>\<open>processAttributes(style2)\<close> (lines 364-383): the four fixed fields, then the loop over
  \<^verbatim>\<open>attr\<close>. The loop calls \<^verbatim>\<open>style2.attr.hasOwnProperty\<close> at its first step, before any
  property of \<^verbatim>\<open>attr\<close> is processed; where this call throws, the exception leaves the
  function.
\<close>

definition processAttributes ::
  "('j, 'x, 'p) engine \<Rightarrow> string option \<Rightarrow> 'j styleDecl \<Rightarrow> ('x, 'p) attrLists \<Rightarrow>
     error option \<times> ('x, 'p) attrLists" where
  "processAttributes E t style2 L =
     (case processAttributeRun E t (fixedAttributes style2) L of
        (Some e, L1) \<Rightarrow> (Some e, L1)
      | (None, L1) \<Rightarrow>
          (case attr style2 of
             None \<Rightarrow> (None, L1)
           | Some obj \<Rightarrow>
               (if ownProperties obj = [] then (None, L1)
                else if hasOwnPropertyThrows obj
                then (Some (Error ''TypeError: style2.attr.hasOwnProperty is not a function''), L1)
                else processAttributeRun E t (ownProperties obj) L1)))"

text \<open>Lines 385-388: the rules of the stack, outermost first, then the rule itself.\<close>

fun processAttributesOfAll ::
  "('j, 'x, 'p) engine \<Rightarrow> string option \<Rightarrow> 'j styleDecl list \<Rightarrow> ('x, 'p) attrLists \<Rightarrow>
     error option \<times> ('x, 'p) attrLists" where
  "processAttributesOfAll E t [] L = (None, L)"
| "processAttributesOfAll E t (style2 # rest) L =
     (case processAttributes E t style2 L of
        (Some e, L1) \<Rightarrow> (Some e, L1)
      | (None, L1) \<Rightarrow> processAttributesOfAll E t rest L1)"

text \<open>
  \<^verbatim>\<open>checkStyleDynamicAttributes\<close> (lines 300-393). The stack holds the declared fields of
  the ancestors: nothing else of them is read. When an attribute expression fails to compile,
  or the loop over \<^verbatim>\<open>attr\<close> throws, the exception leaves the function with the arrays as
  filled so far and without \<^verbatim>\<open>_dynamicTechniques\<close>.
\<close>

definition checkStyleDynamicAttributes ::
  "('j, 'x, 'p) engine \<Rightarrow> 'j styleDecl \<Rightarrow> 'j styleDecl list \<Rightarrow> ('x, 'p) styleInternal \<Rightarrow>
     error option \<times> ('x, 'p) styleInternal" where
  "checkStyleDynamicAttributes E d styleStack n =
     (if p_dynamicTechniqueAttributes n \<noteq> None \<or> technique d = Some ''none'' then (None, n)
      else
        (case processAttributesOfAll E (technique d) (styleStack @ [d])
                \<lparr>staticAttributes = [], dynamicTechniqueAttributes = [],
                 dynamicFeatureAttributes = [], dynamicForwardedAttributes = []\<rparr> of
           (err, L) \<Rightarrow>
             (err,
              n\<lparr>p_staticAttributes := Some (staticAttributes L),
                p_dynamicTechniqueAttributes := Some (dynamicTechniqueAttributes L),
                p_dynamicFeatureAttributes := Some (dynamicFeatureAttributes L),
                p_dynamicForwaredAttributes := Some (dynamicForwardedAttributes L),
                p_dynamicTechniques :=
                  (if err = None \<and> dynamicTechniqueAttributes L \<noteq> [] then Some []
                   else p_dynamicTechniques n)\<rparr>)))"

text \<open>\<^verbatim>\<open>evaluateTechniqueProperties\<close> (lines 395-403); the first exception ends the map.\<close>

fun evaluateAll ::
  "('j, 'x, 'p) engine \<Rightarrow> MapEnv \<Rightarrow> (string \<times> 'x) list \<Rightarrow> error + (string \<times> val) list" where
  "evaluateAll E env [] = Inr []"
| "evaluateAll E env ((attrName, attrExpr) # rest) =
     (case Expr_evaluate E attrExpr env of
        Inl e \<Rightarrow> Inl e
      | Inr evaluatedValue \<Rightarrow>
          (case evaluateAll E env rest of
             Inl e \<Rightarrow> Inl e
           | Inr vs \<Rightarrow> Inr ((attrName, evaluatedValue) # vs)))"

definition evaluateTechniqueProperties ::
  "('j, 'x, 'p) engine \<Rightarrow> ('x, 'p) styleInternal \<Rightarrow> MapEnv \<Rightarrow> error + (string \<times> val) list" where
  "evaluateTechniqueProperties E n env =
     (case p_dynamicTechniqueAttributes n of
        None \<Rightarrow> Inr []
      | Some as \<Rightarrow> evaluateAll E env as)"

text \<open>Assigning a list of properties to a technique, one after the other.\<close>

definition assignAll ::
  "(string \<times> ('x, 'p) propValue) list \<Rightarrow> ('x, 'p) technique \<Rightarrow> ('x, 'p) technique" where
  "assignAll kvs obj = fold (\<lambda>(k, v). assignProperty k v) kvs obj"

fun isExpr :: "('x, 'p) propValue \<Rightarrow> bool" where
  "isExpr (PExpr x) = True"
| "isExpr (PValue v) = False"
| "isExpr (PInterp i) = False"

text \<open>
  \<^verbatim>\<open>createTechnique\<close> (lines 405-437): the new technique and \<^verbatim>\<open>m_techniques\<close> after the
  push. \<^verbatim>\<open>m_techniques.length\<close> is the length of an array, a small natural number.
\<close>

definition createTechnique ::
  "'j styleDecl \<Rightarrow> ('x, 'p) styleInternal \<Rightarrow> (string \<times> val) list \<Rightarrow> ('x, 'p) technique list \<Rightarrow>
     ('x, 'p) technique \<times> ('x, 'p) technique list" where
  "createTechnique d n dynamicAttrs techs =
     (let t0 = assignProperty ''name''
                 (PValue (case technique d of None \<Rightarrow> VUndefined | Some t \<Rightarrow> VStr t))
                 (plainObject []);
          t1 = (case p_staticAttributes n of
                  None \<Rightarrow> t0
                | Some as \<Rightarrow> assignAll (map (\<lambda>(k, v). (k, PValue v)) as) t0);
          t2 = assignAll (map (\<lambda>(k, v). (k, PValue v)) dynamicAttrs) t1;
          t3 = (case p_dynamicFeatureAttributes n of
                  None \<Rightarrow> t2
                | Some as \<Rightarrow> assignAll as t2);
          t4 = (case p_dynamicForwaredAttributes n of
                  None \<Rightarrow> t3
                | Some as \<Rightarrow> assignAll (filter (\<lambda>(k, v). \<not> isExpr v) as) t3);
          t5 = assignProperty ''_index'' (PValue (VNum (Finite (of_nat (length techs))))) t4;
          t6 = assignProperty ''_styleSetIndex''
                 (PValue (case p_styleSetIndex n of
                            None \<Rightarrow> VUndefined
                          | Some i \<Rightarrow> VNum (Finite (of_nat i)))) t5
      in (t6, techs @ [t6]))"

text \<open>
  The state of one call of \<^verbatim>\<open>getMatchingTechniques\<close>: the array \<^verbatim>\<open>result\<close>,
  \<^verbatim>\<open>this.m_techniques\<close>, and the messages logged.
\<close>

record ('j, 'x, 'p) pass =
  result :: "('x, 'p) technique list"
  techniques :: "('x, 'p) technique list"
  logs :: "'j logEntry list"

text \<open>
  Lines 265-294 of \<^verbatim>\<open>processStyle\<close>: the technique of a matched leaf rule, from the cache
  of the rule or newly created. Neither \<^verbatim>\<open>checkStyleDynamicAttributes\<close> nor
  \<^verbatim>\<open>evaluateTechniqueProperties\<close> is called inside a \<^verbatim>\<open>try\<close>: their exceptions leave
  \<^verbatim>\<open>processStyle\<close>.
\<close>

definition resolveTechnique ::
  "('j, 'x, 'p) engine \<Rightarrow> MapEnv \<Rightarrow> 'j styleDecl list \<Rightarrow> 'j styleDecl \<Rightarrow>
     ('x, 'p) styleInternal \<Rightarrow> ('j, 'x, 'p) pass \<Rightarrow>
     (error + unit) \<times> ('x, 'p) styleInternal \<times> ('j, 'x, 'p) pass" where
  "resolveTechnique E env styleStack d n \<sigma> =
     (case checkStyleDynamicAttributes E d styleStack n of
        (Some e, n1) \<Rightarrow> (Inl e, n1, \<sigma>)
      | (None, n1) \<Rightarrow>
          (case p_dynamicTechniques n1 of
             Some cache \<Rightarrow>
               (case evaluateTechniqueProperties E n1 env of
                  Inl e \<Rightarrow> (Inl e, n1, \<sigma>)
                | Inr dynamicAttributes \<Rightarrow>
                    (let key = makeCacheKey E (p_styleSetIndex n1)
                                 (dynamicAttrKey E dynamicAttributes)
                     in case map_of cache key of
                          Some tech \<Rightarrow> (Inr (), n1, \<sigma>\<lparr>result := result \<sigma> @ [tech]\<rparr>)
                        | None \<Rightarrow>
                            (case createTechnique d n1 dynamicAttributes (techniques \<sigma>) of
                               (tech, techs) \<Rightarrow>
                                 (Inr (),
                                  n1\<lparr>p_dynamicTechniques := Some (AList.update key tech cache)\<rparr>,
                                  \<sigma>\<lparr>result := result \<sigma> @ [tech], techniques := techs\<rparr>))))
           | None \<Rightarrow>
               (case p_staticTechnique n1 of
                  Some tech \<Rightarrow> (Inr (), n1, \<sigma>\<lparr>result := result \<sigma> @ [tech]\<rparr>)
                | None \<Rightarrow>
                    (case createTechnique d n1 [] (techniques \<sigma>) of
                       (tech, techs) \<Rightarrow>
                         (Inr (), n1\<lparr>p_staticTechnique := Some tech\<rparr>,
                          \<sigma>\<lparr>result := result \<sigma> @ [tech], techniques := techs\<rparr>)))))"

text \<open>
  \<^verbatim>\<open>processStyle\<close> (lines 217-298) and its loop over the children (lines 250-255). The
  source updates the rule, \<^verbatim>\<open>result\<close> and \<^verbatim>\<open>m_techniques\<close> in place; the model returns them,
  also when an exception leaves the function, so that what was changed before the exception
  is kept. \<^verbatim>\<open>styleStack\<close> is passed down extended by the rule: every \<^verbatim>\<open>push\<close> of the source
  is undone by a \<^verbatim>\<open>pop\<close> before \<^verbatim>\<open>processStyle\<close> returns, so the caller's stack is the same
  after the call.
\<close>

fun processStyle ::
  "('j, 'x, 'p) engine \<Rightarrow> MapEnv \<Rightarrow> 'j styleDecl list \<Rightarrow> ('j, 'x, 'p) style \<Rightarrow>
     ('j, 'x, 'p) pass \<Rightarrow> (error + bool) \<times> ('j, 'x, 'p) style \<times> ('j, 'x, 'p) pass"
and processChildren ::
  "('j, 'x, 'p) engine \<Rightarrow> MapEnv \<Rightarrow> 'j styleDecl list \<Rightarrow> ('j, 'x, 'p) style list \<Rightarrow>
     ('j, 'x, 'p) pass \<Rightarrow> (error + bool) \<times> ('j, 'x, 'p) style list \<times> ('j, 'x, 'p) pass" where
  "processStyle E env styleStack (Style d n kids) \<sigma> =
     (case whenMatches E env d n of
        (matched, n1, msgs) \<Rightarrow>
          (let \<sigma>1 = \<sigma>\<lparr>logs := logs \<sigma> @ msgs\<rparr>
           in if \<not> matched then (Inr False, Style d n1 kids, \<sigma>1)
              else
                (case kids of
                   Some cs \<Rightarrow>
                     (case processChildren E env (styleStack @ [d]) cs \<sigma>1 of
                        (r, cs', \<sigma>2) \<Rightarrow> (r, Style d n1 (Some cs'), \<sigma>2))
                 | None \<Rightarrow>
                     (case technique d of
                        None \<Rightarrow> (Inr False, Style d n1 None, \<sigma>1)
                      | Some t \<Rightarrow>
                          (if t \<noteq> ''none''
                           then (case resolveTechnique E env styleStack d n1 \<sigma>1 of
                                   (Inl e, n2, \<sigma>2) \<Rightarrow> (Inl e, Style d n2 None, \<sigma>2)
                                 | (Inr u, n2, \<sigma>2) \<Rightarrow>
                                     (Inr (final d = Some True), Style d n2 None, \<sigma>2))
                           else (Inr (final d = Some True), Style d n1 None, \<sigma>1))))))"
| "processChildren E env styleStack [] \<sigma> = (Inr False, [], \<sigma>)"
| "processChildren E env styleStack (currStyle # rest) \<sigma> =
     (case processStyle E env styleStack currStyle \<sigma> of
        (Inr False, s', \<sigma>1) \<Rightarrow>
          (case processChildren E env styleStack rest \<sigma>1 of
             (r, rest', \<sigma>2) \<Rightarrow> (r, s' # rest', \<sigma>2))
      | (r, s', \<sigma>1) \<Rightarrow> (r, s' # rest, \<sigma>1))"

text \<open>
  The loop of \<^verbatim>\<open>getMatchingTechniques\<close> (lines 178-185), with its check of the stack, and
  \<^verbatim>\<open>getMatchingTechniques\<close> itself (lines 174-187): the techniques found or the exception,
  and the evaluator after the call.
\<close>

fun matchStyleSet ::
  "('j, 'x, 'p) engine \<Rightarrow> MapEnv \<Rightarrow> 'j styleDecl list \<Rightarrow> ('j, 'x, 'p) style list \<Rightarrow>
     ('j, 'x, 'p) pass \<Rightarrow> (error + bool) \<times> ('j, 'x, 'p) style list \<times> ('j, 'x, 'p) pass" where
  "matchStyleSet E env styleStack [] \<sigma> = (Inr False, [], \<sigma>)"
| "matchStyleSet E env styleStack (currStyle # rest) \<sigma> =
     (if length styleStack \<noteq> 0
      then (Inl (Error ''Internal error: style stack cleanup failed''), currStyle # rest, \<sigma>)
      else
        (case processStyle E env styleStack currStyle \<sigma> of
           (Inr False, s', \<sigma>1) \<Rightarrow>
             (case matchStyleSet E env styleStack rest \<sigma>1 of
                (r, rest', \<sigma>2) \<Rightarrow> (r, s' # rest', \<sigma>2))
         | (r, s', \<sigma>1) \<Rightarrow> (r, s' # rest, \<sigma>1)))"

definition getMatchingTechniques ::
  "('j, 'x, 'p) engine \<Rightarrow> ('j, 'x, 'p) evaluator \<Rightarrow> MapEnv \<Rightarrow>
     (error + ('x, 'p) technique list) \<times> ('j, 'x, 'p) evaluator" where
  "getMatchingTechniques E ev env =
     (case matchStyleSet E env [] (styleSet ev)
             \<lparr>result = [], techniques = m_techniques ev, logs = logged ev\<rparr> of
        (r, ss, \<sigma>) \<Rightarrow>
          ((case r of Inl e \<Rightarrow> Inl e | Inr b \<Rightarrow> Inr (result \<sigma>)),
           ev\<lparr>styleSet := ss, m_techniques := techniques \<sigma>, logged := logs \<sigma>\<rparr>))"

text \<open>
  \<^verbatim>\<open>makeDecodedTechnique\<close> (lines 449-462): the loop over the properties of the technique.
  Its first step calls \<^verbatim>\<open>technique.hasOwnProperty\<close>; the properties that are kept are
  assigned to a new object.
\<close>

definition makeDecodedTechnique :: "('x, 'p) technique \<Rightarrow> error + ('x, 'p) technique" where
  "makeDecodedTechnique tech =
     (if ownProperties tech \<noteq> [] \<and> hasOwnPropertyThrows tech
      then Inl (Error ''TypeError: technique.hasOwnProperty is not a function'')
      else Inr (fold (\<lambda>(attrName, attrValue) res.
                        if isExpr attrValue then res else assignProperty attrName attrValue res)
                  (ownProperties tech) (plainObject [])))"

text \<open>
  The getter \<^verbatim>\<open>decodedTechniques\<close> (lines 199-201): \<^verbatim>\<open>map\<close> over \<^verbatim>\<open>m_techniques\<close>, ended by
  the first exception.
\<close>

fun mapDecoded :: "('x, 'p) technique list \<Rightarrow> error + ('x, 'p) technique list" where
  "mapDecoded [] = Inr []"
| "mapDecoded (tech # rest) =
     (case makeDecodedTechnique tech of
        Inl e \<Rightarrow> Inl e
      | Inr decoded \<Rightarrow>
          (case mapDecoded rest of
             Inl e \<Rightarrow> Inl e
           | Inr ds \<Rightarrow> Inr (decoded # ds)))"

definition decodedTechniques :: "('j, 'x, 'p) evaluator \<Rightarrow> error + ('x, 'p) technique list" where
  "decodedTechniques ev = mapDecoded (m_techniques ev)"

section \<open>Notions used in the statements\<close>

text \<open>A rule with no field set, from which the example rules are built.\<close>

definition plainRule :: "'j styleDecl" where
  "plainRule =
     \<lparr>when' = None, technique = None, final = None, renderOrder = None,
      renderOrderOffset = None, labelProperty = None, secondaryRenderOrder = None,
      attr = None, renderOrderBiasGroup = None, renderOrderBiasRange = None\<rparr>"

text \<open>The group and the resolved render order of every rule of the tree, in pre-order.\<close>

definition resolvedRenderOrders ::
  "('j, 'x, 'p) evaluator \<Rightarrow> (string option \<times> number option) list" where
  "resolvedRenderOrders ev =
     map (\<lambda>s. (renderOrderBiasGroup (decl s), renderOrder (decl s))) (allStylesOf (styleSet ev))"


text \<open>
  A leaf rule with a technique, no explicit render order and no bias group: the rules whose
  render order comes from the counter (line 156). \<open>autoAssigned ins outs\<close> lists the render
  orders that the rules \<open>outs\<close> carry at the positions where the rules \<open>ins\<close>, the same rules
  before the constructor resolved them, are such leaves.
\<close>

definition autoLeaf :: "('j, 'x, 'p) style \<Rightarrow> bool" where
  "autoLeaf s \<longleftrightarrow>
     styles s = None \<and> technique (decl s) \<noteq> None \<and> renderOrder (decl s) = None \<and>
     renderOrderBiasGroup (decl s) = None"

definition autoAssigned ::
  "('j, 'x, 'p) style list \<Rightarrow> ('j, 'x, 'p) style list \<Rightarrow> number option list" where
  "autoAssigned ins outs =
     map (\<lambda>(i, out). renderOrder (decl out)) (filter (\<lambda>(i, out). autoLeaf i) (zip ins outs))"

text \<open>An integer as a number, and the numbers that are integers.\<close>

definition integer :: "int \<Rightarrow> number" where
  "integer i = Finite (of_int i)"

fun isInteger :: "number \<Rightarrow> bool" where
  "isInteger (Finite r) = (of_int \<lfloor>r\<rfloor> = r)"
| "isInteger x = False"

text \<open>
  A rule with a bias group and a range \<^verbatim>\<open>[min, max]\<close> moves the counter by
  \<open>\<bar>min\<bar> + max + 1\<close> when it reserves its block. The range is whole when \<open>min\<close> and \<open>max\<close> are
  integers and the block is not negative.
\<close>

definition wholeRange :: "('j, 'x, 'p) style \<Rightarrow> bool" where
  "wholeRange s =
     (case (renderOrderBiasGroup (decl s), renderOrderBiasRange (decl s)) of
        (Some g, Some (Finite minRange, Finite maxRange)) \<Rightarrow>
          isInteger (Finite minRange) \<and> isInteger (Finite maxRange) \<and>
          0 \<le> \<bar>minRange\<bar> + maxRange + 1
      | (Some g, Some other) \<Rightarrow> False
      | _ \<Rightarrow> True)"

text \<open>
  A bound on how far the rules of a tree can move the counter: \<open>\<bar>min\<bar> + \<bar>max\<bar> + 1\<close> for
  every rule with a bias group and a range, and 1 for every leaf. Every integer up to \<open>2 ^ 53\<close>
  is a double, so a counter that stays below this bound is exact.
\<close>

definition blockSteps :: "'j styleDecl \<Rightarrow> rat" where
  "blockSteps d =
     (case (renderOrderBiasGroup d, renderOrderBiasRange d) of
        (Some g, Some (Finite minRange, Finite maxRange)) \<Rightarrow> \<bar>minRange\<bar> + \<bar>maxRange\<bar> + 1
      | _ \<Rightarrow> 0)"

definition counterSteps :: "('j, 'x, 'p) style \<Rightarrow> rat" where
  "counterSteps s = blockSteps (decl s) + (if styles s = None then 1 else 0)"

definition counterSpan :: "('j, 'x, 'p) style list \<Rightarrow> rat" where
  "counterSpan ss = sum_list (map counterSteps (allStylesOf ss))"

text \<open>
  A list of render orders that are all integers, strictly increasing, and taken from the
  counter between two of its values.
\<close>

definition countedBetween :: "int \<Rightarrow> int \<Rightarrow> number option list \<Rightarrow> bool" where
  "countedBetween lo hi os \<longleftrightarrow>
     lo \<le> hi \<and>
     (\<exists>xs. os = map (\<lambda>x. Some (integer x)) xs \<and> sorted_wrt (<) xs \<and>
           (\<forall>x\<in>set xs. lo \<le> x \<and> x < hi))"


text \<open>
  The \<^verbatim>\<open>_index\<close> of a technique. A list of techniques is \<open>indexedFrom k\<close> when its members
  carry the indexes \<open>k\<close>, \<open>k + 1\<close>, ... in this order; \<open>appended old new\<close> says that \<open>new\<close> is
  \<open>old\<close> followed by techniques indexed from the length of \<open>old\<close>.
\<close>

definition techniqueIndex :: "('x, 'p) technique \<Rightarrow> number option" where
  "techniqueIndex tech =
     (case map_of (ownProperties tech) ''_index'' of
        Some (PValue (VNum i)) \<Rightarrow> Some i
      | _ \<Rightarrow> None)"



text \<open>The evaluator after a sequence of \<^verbatim>\<open>getMatchingTechniques\<close> calls, whatever they return.\<close>

fun afterCalls ::
  "('j, 'x, 'p) engine \<Rightarrow> ('j, 'x, 'p) evaluator \<Rightarrow> MapEnv list \<Rightarrow> ('j, 'x, 'p) evaluator" where
  "afterCalls E ev [] = ev"
| "afterCalls E ev (env # envs) = afterCalls E (snd (getMatchingTechniques E ev env)) envs"

text \<open>
  The declarations \<^verbatim>\<open>processAttributes\<close> visits for a rule, in their order, when the loop
  over \<^verbatim>\<open>attr\<close> does not throw; those of a rule and its ancestors.
\<close>

definition attributeDeclarations :: "'j styleDecl \<Rightarrow> (string \<times> 'j attrValue) list" where
  "attributeDeclarations style2 =
     fixedAttributes style2 @ (case attr style2 of None \<Rightarrow> [] | Some obj \<Rightarrow> ownProperties obj)"

definition chainDeclarations ::
  "'j styleDecl list \<Rightarrow> 'j styleDecl \<Rightarrow> (string \<times> 'j attrValue) list" where
  "chainDeclarations styleStack d = concat (map attributeDeclarations (styleStack @ [d]))"

text \<open>
  The static declarations among a list of attribute declarations, as \<^verbatim>\<open>processAttribute\<close>
  keeps them, and those of a rule; the names of the dynamic attributes a rule has collected.
\<close>

definition staticOf :: "(string \<times> 'j attrValue) list \<Rightarrow> (string \<times> val) list" where
  "staticOf decls =
     concat (map (\<lambda>(attrName, attrValue).
                    case attrValue of
                      Static v \<Rightarrow> if v = VUndefined then [] else [(attrName, v)]
                    | _ \<Rightarrow> []) decls)"



text \<open>
  The expressions declared for attributes of technique scope among a list of attribute
  declarations: the JSON expressions that compile and whose attribute name
  \<^verbatim>\<open>techniqueAttrType\<close> classifies as \<^verbatim>\<open>TechniqueAttrType.Technique\<close>, each with its name.
  A rule is \<open>techniqueScoped\<close> when the expressions it has collected for its cache key are
  among those its chain declares for attributes of technique scope; a rule that has
  collected nothing yet is. Two environments \<open>agreeOn\<close> a list of expressions when each has
  the same outcome in both.
\<close>

definition techniqueScopeExprs ::
  "('j, 'x, 'p) engine \<Rightarrow> string option \<Rightarrow> (string \<times> 'j attrValue) list \<Rightarrow> (string \<times> 'x) list" where
  "techniqueScopeExprs E t decls =
     concat (map (\<lambda>(attrName, attrValue).
                    case attrValue of
                      JsonExprValue j \<Rightarrow>
                        (case Expr_fromJSON E j of
                           Inr expr \<Rightarrow>
                             if techniqueAttrType E t attrName = Technique
                             then [(attrName, expr)] else []
                         | Inl e \<Rightarrow> [])
                    | _ \<Rightarrow> []) decls)"

definition techniqueScoped ::
  "('j, 'x, 'p) engine \<Rightarrow> 'j styleDecl list \<Rightarrow> 'j styleDecl \<Rightarrow> ('x, 'p) styleInternal \<Rightarrow> bool" where
  "techniqueScoped E styleStack d n =
     (case p_dynamicTechniqueAttributes n of
        None \<Rightarrow> True
      | Some as \<Rightarrow>
          list_all (\<lambda>a. a \<in> set (techniqueScopeExprs E (technique d)
                                      (chainDeclarations styleStack d))) as)"

text \<open>
  A tree in which every leaf rule is \<open>techniqueScoped\<close> for the stack of its ancestors.
\<close>

fun scopedTree ::
  "('j, 'x, 'p) engine \<Rightarrow> 'j styleDecl list \<Rightarrow> ('j, 'x, 'p) style \<Rightarrow> bool"
and scopedTrees ::
  "('j, 'x, 'p) engine \<Rightarrow> 'j styleDecl list \<Rightarrow> ('j, 'x, 'p) style list \<Rightarrow> bool" where
  "scopedTree E styleStack (Style d n kids) =
     (case kids of
        None \<Rightarrow> techniqueScoped E styleStack d n
      | Some cs \<Rightarrow> scopedTrees E (styleStack @ [d]) cs)"
| "scopedTrees E styleStack [] = True"
| "scopedTrees E styleStack (s # ss) = (scopedTree E styleStack s \<and> scopedTrees E styleStack ss)"


text \<open>
  Two states of a rule with the same four arrays of collected attributes: once
  \<^verbatim>\<open>checkStyleDynamicAttributes\<close> has set them, a rule keeps them for good.
\<close>

definition sameAttributes :: "('x, 'p) styleInternal \<Rightarrow> ('x, 'p) styleInternal \<Rightarrow> bool" where
  "sameAttributes n1 n2 \<longleftrightarrow>
     p_staticAttributes n2 = p_staticAttributes n1 \<and>
     p_dynamicTechniqueAttributes n2 = p_dynamicTechniqueAttributes n1 \<and>
     p_dynamicFeatureAttributes n2 = p_dynamicFeatureAttributes n1 \<and>
     p_dynamicForwaredAttributes n2 = p_dynamicForwaredAttributes n1"

text \<open>The state in which \<^verbatim>\<open>getMatchingTechniques\<close> starts its loop.\<close>

definition startPass :: "('j, 'x, 'p) evaluator \<Rightarrow> ('j, 'x, 'p) pass" where
  "startPass ev = \<lparr>result = [], techniques = m_techniques ev, logs = logged ev\<rparr>"

text \<open>
  \<open>reaches E env (styleStack, ss, \<sigma>) (styleStack', s, \<sigma>') following\<close>: the loop over the rules
  \<open>ss\<close>, entered with the stack \<open>styleStack\<close> in the state \<open>\<sigma>\<close>, arrives at the rule \<open>s\<close>, among
  \<open>ss\<close> or at any depth below them, and is about to call \<^verbatim>\<open>processStyle\<close> on it with the
  stack \<open>styleStack'\<close> in the state \<open>\<sigma>'\<close>: the rules before \<open>s\<close> at its level have been processed
  without ending the walk, and so have those before each of its ancestors, whose conditions
  matched. \<open>following\<close> are the rules after \<open>s\<close> in pre-order, below the rules \<open>ss\<close>.
\<close>

inductive reaches ::
  "('j, 'x, 'p) engine \<Rightarrow> MapEnv \<Rightarrow>
     'j styleDecl list \<times> ('j, 'x, 'p) style list \<times> ('j, 'x, 'p) pass \<Rightarrow>
     'j styleDecl list \<times> ('j, 'x, 'p) style \<times> ('j, 'x, 'p) pass \<Rightarrow>
     ('j, 'x, 'p) style list \<Rightarrow> bool"
  for E env where
  reaches_here:
    "processChildren E env styleStack pre \<sigma> = (Inr False, pre', \<sigma>1) \<Longrightarrow>
     reaches E env (styleStack, pre @ s # post, \<sigma>) (styleStack, s, \<sigma>1) (allStylesOf post)"
| reaches_child:
    "processChildren E env styleStack pre \<sigma> = (Inr False, pre', \<sigma>1) \<Longrightarrow>
     whenMatches E env d n = (True, n1, msgs) \<Longrightarrow>
     reaches E env (styleStack @ [d], cs, \<sigma>1\<lparr>logs := logs \<sigma>1 @ msgs\<rparr>) target following \<Longrightarrow>
     reaches E env (styleStack, pre @ Style d n (Some cs) # post, \<sigma>) target
       (following @ allStylesOf post)"

text \<open>
  An expression engine for the examples: an expression is the name of an attribute of the
  feature and evaluates to its value, \<^verbatim>\<open>undefined\<close> when the feature has none; the empty
  expression does not compile and the expression \<open>!\<close> throws when evaluated.
  \<^verbatim>\<open>lineWidth\<close> is a feature attribute, \<^verbatim>\<open>color\<close> a technique attribute. The texts are those
  of JavaScript for the values the examples put into keys: natural numbers below \<open>10 ^ 21\<close>, in
  decimal digits, strings without a character that JSON escapes, in double quotes,
  booleans and \<^verbatim>\<open>null\<close>; every other value gets the empty text.
\<close>

fun showNat :: "nat \<Rightarrow> string" where
  "showNat n =
     (if n < 10 then [char_of (48 + n)] else showNat (n div 10) @ [char_of (48 + n mod 10)])"

declare showNat.simps [simp del]

definition showNumber :: "number \<Rightarrow> string" where
  "showNumber x =
     (case x of
        Finite r \<Rightarrow> if 0 \<le> r \<and> of_int \<lfloor>r\<rfloor> = r then showNat (nat \<lfloor>r\<rfloor>) else []
      | _ \<Rightarrow> [])"

fun showValue :: "val \<Rightarrow> string" where
  "showValue VUndefined = []"
| "showValue VNull = ''null''"
| "showValue (VBool b) = (if b then ''true'' else ''false'')"
| "showValue (VNum x) = showNumber x"
| "showValue (VStr str) = CHR 0x22 # str @ [CHR 0x22]"

definition getEngine :: "(string, string, string) engine" where
  "getEngine =
     \<lparr>Expr_parse = (\<lambda>str. if str = [] then Inl (Error ''ParseError'') else Inr str),
      Expr_fromJSON = (\<lambda>j. if j = [] then Inl (Error ''ParseError'') else Inr j),
      Expr_evaluate = (\<lambda>x env. if x = ''!'' then Inl (Error ''EvaluationError'')
                                 else Inr (case env x of None \<Rightarrow> VUndefined | Some v \<Rightarrow> v)),
      createInterpolatedProperty = Some,
      techniqueAttrType = (\<lambda>t a. if a = ''lineWidth'' then Feature
                                   else if a = ''color'' then Technique
                                   else if a = ''opacity'' then DynamicMaterial
                                   else OtherAttrType),
      JSON_stringify = showValue,
      Number_toString = showNumber\<rparr>"

text \<open>Example style sets.\<close>

definition biasExample :: "unit StyleDeclaration list" where
  "biasExample =
     [Declaration (plainRule\<lparr>technique := Some ''fill''\<rparr>) None,
      Declaration (plainRule\<lparr>technique := Some ''line'', renderOrderBiasGroup := Some ''g'',
                     renderOrderBiasRange := Some (Finite 0, Finite 1)\<rparr>) None,
      Declaration (plainRule\<lparr>technique := Some ''line'', renderOrderBiasGroup := Some ''g''\<rparr>) None]"


definition rangeExample :: "unit StyleDeclaration list" where
  "rangeExample =
     [Declaration (plainRule\<lparr>technique := Some ''fill''\<rparr>) None,
      Declaration (plainRule\<lparr>technique := Some ''line'', renderOrderBiasGroup := Some ''g'',
                     renderOrderBiasRange := Some (Finite (- 2), Finite 3)\<rparr>) None,
      Declaration (plainRule\<lparr>technique := Some ''fill''\<rparr>) None,
      Declaration plainRule
        (Some [Reference ''shared'', Declaration (plainRule\<lparr>technique := Some ''text''\<rparr>) None])]"

text \<open>
  Three style sets with a rule that reserves a bias block: with a range whose upper end is
  below its lower end, with a range that ends at \<open>2 ^ 53\<close>, and with a range that ends at
  one half. \<open>autoRenderOrders\<close> gives the render orders the constructor takes from the counter
  for the leaf rules of a style set.
\<close>

definition invertedRangeExample :: "unit StyleDeclaration list" where
  "invertedRangeExample =
     [Declaration (plainRule\<lparr>technique := Some ''fill''\<rparr>) None,
      Declaration (plainRule\<lparr>technique := Some ''line'', renderOrderBiasGroup := Some ''g'',
                     renderOrderBiasRange := Some (Finite 0, Finite (- 5))\<rparr>) None,
      Declaration (plainRule\<lparr>technique := Some ''fill''\<rparr>) None]"

definition hugeRangeExample :: "unit StyleDeclaration list" where
  "hugeRangeExample =
     [Declaration (plainRule\<lparr>technique := Some ''line'', renderOrderBiasGroup := Some ''g'',
                     renderOrderBiasRange := Some (Finite 0, Finite 9007199254740992)\<rparr>) None,
      Declaration (plainRule\<lparr>technique := Some ''fill''\<rparr>) None,
      Declaration (plainRule\<lparr>technique := Some ''fill''\<rparr>) None]"

definition halfRangeExample :: "unit StyleDeclaration list" where
  "halfRangeExample =
     [Declaration (plainRule\<lparr>technique := Some ''fill''\<rparr>) None,
      Declaration (plainRule\<lparr>technique := Some ''line'', renderOrderBiasGroup := Some ''g'',
                     renderOrderBiasRange := Some (Finite 0, Finite (1 / 2))\<rparr>) None,
      Declaration (plainRule\<lparr>technique := Some ''fill''\<rparr>) None]"

definition autoRenderOrders :: "unit StyleDeclaration list \<Rightarrow> error + number option list" where
  "autoRenderOrders decls =
     map_sum id
       (\<lambda>ev. autoAssigned (allStylesOf (cloneStyles decls)) (allStylesOf (styleSet ev)))
       (StyleSetEvaluator decls :: error + (unit, unit, unit) evaluator)"

definition roadStyles :: "string StyleDeclaration list" where
  "roadStyles =
     [Declaration (plainRule\<lparr>when' := Some (WhenJson ''isRoad''), technique := Some ''solid-line'',
                     attr := Some (plainObject [(''color'', JsonExprValue ''roadColor''),
                                   (''lineWidth'', JsonExprValue ''width'')])\<rparr>) None]"

definition redRoad :: MapEnv where
  "redRoad = [''isRoad'' \<mapsto> VBool True, ''roadColor'' \<mapsto> VStr ''red'', ''width'' \<mapsto> VNum (Finite 2)]"


definition roadEvaluator :: "(string, string, string) evaluator" where
  "roadEvaluator = projr (StyleSetEvaluator roadStyles)"




text \<open>
  A leaf rule whose parent declares an expression that does not compile, and a leaf rule
  that declares values for \<^verbatim>\<open>__proto__\<close> and \<^verbatim>\<open>_index\<close>.
\<close>

definition brokenParentStyles :: "string StyleDeclaration list" where
  "brokenParentStyles =
     [Declaration (plainRule\<lparr>attr := Some (plainObject [(''color'', JsonExprValue [])])\<rparr>)
        (Some [Declaration (plainRule\<lparr>technique := Some ''solid-line'',
                               attr := Some (plainObject [(''caps'', Static (VStr ''Round''))])\<rparr>)
                 None])]"

definition reservedNameStyles :: "string StyleDeclaration list" where
  "reservedNameStyles =
     [Declaration (plainRule\<lparr>technique := Some ''solid-line'',
                     attr := Some (plainObject [(''__proto__'', Static (VStr ''line'')),
                                                (''_index'', Static (VNum (Finite 7)))])\<rparr>)
        None]"

definition finalStyles :: "string StyleDeclaration list" where
  "finalStyles =
     [Declaration (plainRule\<lparr>when' := Some (WhenJson ''isRoad'')\<rparr>)
        (Some [Declaration (plainRule\<lparr>technique := Some ''solid-line'', final := Some True\<rparr>) None,
               Declaration (plainRule\<lparr>technique := Some ''dashed-line''\<rparr>) None]),
      Declaration (plainRule\<lparr>technique := Some ''fill''\<rparr>) None]"

definition finalEvaluator :: "(string, string, string) evaluator" where
  "finalEvaluator = projr (StyleSetEvaluator finalStyles)"

definition throwingStyles :: "string StyleDeclaration list" where
  "throwingStyles =
     [Declaration (plainRule\<lparr>technique := Some ''solid-line'',
                     attr := Some (plainObject [(''color'', JsonExprValue ''!'')])\<rparr>) None,
      Declaration (plainRule\<lparr>technique := Some ''fill''\<rparr>) None]"

definition throwingEvaluator :: "(string, string, string) evaluator" where
  "throwingEvaluator = projr (StyleSetEvaluator throwingStyles)"

definition brokenWhen :: "string styleDecl" where
  "brokenWhen = plainRule\<lparr>when' := Some (WhenJson ''!''), technique := Some ''fill''\<rparr>"


section \<open>Integers among the doubles\<close>

text \<open>
  Every integer from \<open>- 2 ^ 53\<close> to \<open>2 ^ 53\<close> is a double, and the sum of two numbers is exact
  when it is such an integer.
\<close>

lemma roundHalfEven_of_int: "roundHalfEven (of_int k) = k"
  by (simp add: roundHalfEven_def)

lemma floorLog2_of_int: "0 < m \<Longrightarrow> floorLog2 (of_int m) = bitlen m - 1"
  by (simp add: floorLog2_def)

lemma bitlen_le_54:
  assumes "0 < m" "m \<le> 2 ^ 53"
  shows "bitlen m \<le> 54"
proof -
  have "m < 2 ^ 54" using assms by simp
  then show ?thesis
    using bitlen_le_iff_power [of m 54] assms by simp
qed

lemma roundDouble_pos:
  assumes pos: "0 < m" and le: "m \<le> 2 ^ 53"
  shows "roundDouble (of_int m) = Finite (of_int m)"
proof -
  let ?b = "bitlen m"
  have b1: "1 \<le> ?b" using pos by (simp add: bitlen_alt_def)
  have b54: "?b \<le> 54" using bitlen_le_54 [OF pos le] .
  have lo: "2 ^ nat (?b - 1) \<le> m" using bitlen_bounds [OF pos] by simp
  have small: "(of_int m :: rat) < pow2 1024"
  proof -
    have "m < 2 ^ 1024" using le by (rule order_le_less_trans) simp
    then have "(of_int m :: rat) < of_int (2 ^ 1024)" by (simp only: of_int_less_iff)
    then show ?thesis by (simp add: pow2_def)
  qed
  have "\<exists>k. (of_int m :: rat) / pow2 (?b - 53) = of_int k"
  proof (cases "?b = 54")
    case True
    then have "2 ^ 53 \<le> m" using lo by simp
    then have "m = 2 ^ 53" using le by simp
    then show ?thesis using True by (intro exI [of _ "2 ^ 52"]) (simp add: pow2_def)
  next
    case False
    then have "?b \<le> 53" using b54 by simp
    then have "pow2 (?b - 53) = 1 / 2 ^ nat (53 - ?b)"
      by (cases "?b = 53") (simp_all add: pow2_def)
    then show ?thesis by (intro exI [of _ "m * 2 ^ nat (53 - ?b)"]) simp
  qed
  then obtain k where k: "(of_int m :: rat) / pow2 (?b - 53) = of_int k" ..
  have ulp: "pow2 (?b - 53) \<noteq> 0" by (simp add: pow2_def)
  have mul: "of_int k * pow2 (?b - 53) = (of_int m :: rat)"
    using k ulp by (simp add: field_simps)
  have "max (?b - 1) (- 1022) - 52 = ?b - 53" using b1 by simp
  then show ?thesis
    using pos small k mul
    by (simp add: roundDouble_def floorLog2_of_int Let_def roundHalfEven_of_int)
qed

lemma roundDouble_minus:
  "roundDouble (- x) =
     (case roundDouble x of
        Finite r \<Rightarrow> Finite (- r)
      | PosInfinity \<Rightarrow> NegInfinity
      | NegInfinity \<Rightarrow> PosInfinity
      | NaN \<Rightarrow> NaN)"
  by (cases "x = 0"; cases "x < 0") (auto simp add: roundDouble_def Let_def)

lemma roundDouble_of_int:
  assumes "\<bar>n\<bar> \<le> 2 ^ 53"
  shows "roundDouble (of_int n) = Finite (of_int n)"
proof (cases "n = 0")
  case True
  then show ?thesis by (simp add: roundDouble_def)
next
  case False
  show ?thesis
  proof (cases "0 < n")
    case True
    then show ?thesis using roundDouble_pos [of n] assms by simp
  next
    case neg: False
    then have m: "0 < - n" "- n \<le> 2 ^ 53" using False assms by simp_all
    have "roundDouble (of_int n) = roundDouble (- of_int (- n))" by simp
    also have "\<dots> = Finite (of_int n)"
      unfolding roundDouble_minus using roundDouble_pos [OF m] by simp
    finally show ?thesis .
  qed
qed

lemma isDouble_integer: "\<bar>i\<bar> \<le> 2 ^ 53 \<Longrightarrow> isDouble (integer i)"
  by (simp add: integer_def roundDouble_of_int)

lemma numberAdd_integer:
  "\<bar>a + b\<bar> \<le> 2 ^ 53 \<Longrightarrow> numberAdd (integer a) (integer b) = integer (a + b)"
  using roundDouble_of_int [of "a + b"] by (simp add: integer_def)

lemma Math_abs_integer: "Math_abs (integer a) = integer \<bar>a\<bar>"
  by (simp add: integer_def)

lemma lessThanZero_integer: "lessThanZero (integer a) \<longleftrightarrow> a < 0"
  by (simp add: integer_def)

lemma isInteger_integer: "isInteger x \<Longrightarrow> \<exists>i. x = integer i"
  by (cases x) (auto simp: integer_def intro: exI [of _ "\<lfloor>r\<rfloor>" for r])

lemma integer_eq_iff [simp]: "integer a = integer b \<longleftrightarrow> a = b"
  by (simp add: integer_def)

text \<open>The same for the numerals of the examples.\<close>

lemma roundDouble_one: "roundDouble 1 = Finite 1"
  using roundDouble_of_int [of 1] by simp

lemma roundDouble_numeral:
  "numeral k \<le> (2 ^ 53 :: int) \<Longrightarrow> roundDouble (numeral k) = Finite (numeral k)"
  using roundDouble_of_int [of "numeral k"] by simp

lemma roundDouble_neg_numeral:
  "numeral k \<le> (2 ^ 53 :: int) \<Longrightarrow> roundDouble (- numeral k) = Finite (- numeral k)"
  using roundDouble_of_int [of "- numeral k"] by simp

lemmas number_eval = roundDouble_one roundDouble_numeral roundDouble_neg_numeral integer_def


section \<open>Render orders assigned by the constructor\<close>

lemmas ctor_eval =
  StyleSetEvaluator_def initialCtorState_def applyRenderOrderBias_def warnOverridden_def
  resolvedRenderOrders_def plainRule_def noInternal_def Let_def number_eval


lemma applyBias_fields:
  "applyRenderOrderBias d st = (d1, st1) \<Longrightarrow>
     renderOrderBiasGroup d1 = renderOrderBiasGroup d \<and>
     renderOrderBiasRange d1 = renderOrderBiasRange d \<and>
     technique d1 = technique d"
  by (auto simp: applyRenderOrderBias_def Let_def warnOverridden_def
      split: option.splits prod.splits if_splits)

lemma applyBias_groups_mono:
  "applyRenderOrderBias d st = (d1, st1) \<Longrightarrow> map_of (biasGroups st) g = Some v \<Longrightarrow>
     map_of (biasGroups st1) g = Some v"
  by (auto simp: applyRenderOrderBias_def Let_def warnOverridden_def update_conv'
      split: option.splits prod.splits if_splits)

lemma applyBias_registered:
  "applyRenderOrderBias d st = (d1, st1) \<Longrightarrow> renderOrderBiasGroup d = Some g \<Longrightarrow> g \<noteq> [] \<Longrightarrow>
   map_of (biasGroups st) g = Some v \<Longrightarrow> numberTruthy v \<Longrightarrow> renderOrder d1 = Some v"
  by (auto simp: applyRenderOrderBias_def Let_def warnOverridden_def update_conv'
      split: option.splits prod.splits if_splits)

lemma applyBias_range:
  "applyRenderOrderBias d st = (d1, st1) \<Longrightarrow> renderOrderBiasGroup d = Some g \<Longrightarrow> g \<noteq> [] \<Longrightarrow>
   renderOrderBiasRange d \<noteq> None \<Longrightarrow>
   (\<exists>w. map_of (biasGroups st1) g = Some w \<and> (numberTruthy w \<longrightarrow> renderOrder d1 = Some w))"
  by (auto simp: applyRenderOrderBias_def Let_def warnOverridden_def update_conv'
      split: option.splits prod.splits if_splits)

lemma cdro_groups_mono:
  "computeDefaultRenderOrder (s :: ('j, 'x, 'p) style) st = (s', st') \<Longrightarrow>
     map_of (biasGroups st) g = Some v \<Longrightarrow> map_of (biasGroups st') g = Some v"
  "computeDefaultRenderOrders (ss :: ('j, 'x, 'p) style list) st = (ss', st') \<Longrightarrow>
     map_of (biasGroups st) g = Some v \<Longrightarrow> map_of (biasGroups st') g = Some v"
proof (induction s st and ss st arbitrary: s' st' and ss' st'
    rule: computeDefaultRenderOrder_computeDefaultRenderOrders.induct)
  case (1 d n kids st)
  obtain d1 st1 where b: "applyRenderOrderBias d st = (d1, st1)" by fastforce
  have g1: "map_of (biasGroups st1) g = Some v"
    using applyBias_groups_mono [OF b "1.prems"(2)] .
  show ?case
  proof (cases kids)
    case None
    with "1.prems"(1) b g1 show ?thesis
      by (auto simp: Let_def split: if_splits)
  next
    case (Some cs)
    obtain cs' st2 where c: "computeDefaultRenderOrders cs st1 = (cs', st2)" by fastforce
    have "map_of (biasGroups st2) g = Some v"
      using "1.IH" [OF b [symmetric] Some c g1] .
    with "1.prems"(1) b Some c show ?thesis by simp
  qed
next
  case (2 st)
  then show ?case by simp
next
  case (3 s ss st)
  obtain s1 st1 where a: "computeDefaultRenderOrder s st = (s1, st1)" by fastforce
  obtain ss1 st2 where c: "computeDefaultRenderOrders ss st1 = (ss1, st2)" by fastforce
  have "map_of (biasGroups st1) g = Some v" using "3.IH"(1) [OF a "3.prems"(2)] .
  then have "map_of (biasGroups st2) g = Some v" using "3.IH"(2) [OF a [symmetric] c] by simp
  with "3.prems"(1) a c show ?case by simp
qed

lemma cdro_leaf:
  assumes "computeDefaultRenderOrder (Style d n None) st = (s', st')"
    and "applyRenderOrderBias d st = (d1, st1)"
  shows "\<exists>d2 n2. s' = Style d2 n2 None \<and> biasGroups st' = biasGroups st1 \<and>
           renderOrderBiasGroup d2 = renderOrderBiasGroup d \<and>
           renderOrderBiasRange d2 = renderOrderBiasRange d \<and>
           (\<forall>v. renderOrder d1 = Some v \<longrightarrow> renderOrder d2 = Some v)"
  using assms applyBias_fields [OF assms(2)]
  by (auto simp: Let_def split: if_splits)

lemma cdro_inner:
  assumes "computeDefaultRenderOrder (Style d n (Some cs)) st = (s', st')"
    and "applyRenderOrderBias d st = (d1, st1)"
  shows "\<exists>cs'. s' = Style d1 n (Some cs') \<and> computeDefaultRenderOrders cs st1 = (cs', st')"
  using assms by (auto split: prod.splits)

lemma cdro_before:
  "computeDefaultRenderOrder (s :: ('j, 'x, 'p) style) st = (s', st') \<Longrightarrow>
     map_of (biasGroups st) g = Some v \<Longrightarrow> numberTruthy v \<Longrightarrow> g \<noteq> [] \<Longrightarrow>
     r \<in> set (allStyles s') \<Longrightarrow> renderOrderBiasGroup (decl r) = Some g \<Longrightarrow>
     renderOrder (decl r) = Some v"
  "computeDefaultRenderOrders (ss :: ('j, 'x, 'p) style list) st = (ss', st') \<Longrightarrow>
     map_of (biasGroups st) g = Some v \<Longrightarrow> numberTruthy v \<Longrightarrow> g \<noteq> [] \<Longrightarrow>
     r \<in> set (allStylesOf ss') \<Longrightarrow> renderOrderBiasGroup (decl r) = Some g \<Longrightarrow>
     renderOrder (decl r) = Some v"
proof (induction s st and ss st arbitrary: s' st' and ss' st'
    rule: computeDefaultRenderOrder_computeDefaultRenderOrders.induct)
  case (1 d n kids st)
  obtain d1 st1 where b: "applyRenderOrderBias d st = (d1, st1)" by fastforce
  have g1: "map_of (biasGroups st1) g = Some v"
    using applyBias_groups_mono [OF b "1.prems"(2)] .
  show ?case
  proof (cases kids)
    case None
    from cdro_leaf [OF "1.prems"(1) [unfolded None] b]
    obtain d2 n2 where s': "s' = Style d2 n2 None"
      and f: "renderOrderBiasGroup d2 = renderOrderBiasGroup d"
      and ro: "\<forall>v. renderOrder d1 = Some v \<longrightarrow> renderOrder d2 = Some v" by blast
    from "1.prems"(5) s' have r: "r = Style d2 n2 None" by simp
    with "1.prems"(6) f have "renderOrderBiasGroup d = Some g" by simp
    from applyBias_registered [OF b this "1.prems"(4) "1.prems"(2) "1.prems"(3)] ro r
    show ?thesis by simp
  next
    case (Some cs)
    from cdro_inner [OF "1.prems"(1) [unfolded Some] b]
    obtain cs' where s': "s' = Style d1 n (Some cs')"
      and c: "computeDefaultRenderOrders cs st1 = (cs', st')" by blast
    from "1.prems"(5) s' consider "r = Style d1 n (Some cs')" | "r \<in> set (allStylesOf cs')"
      by auto
    then show ?thesis
    proof cases
      case 1
      with "1.prems"(6) applyBias_fields [OF b] have "renderOrderBiasGroup d = Some g" by simp
      from applyBias_registered [OF b this "1.prems"(4) "1.prems"(2) "1.prems"(3)] 1
      show ?thesis by simp
    next
      case 2
      show ?thesis
        using "1.IH" [OF b [symmetric] Some c g1 "1.prems"(3) "1.prems"(4) 2 "1.prems"(6)] .
    qed
  qed
next
  case (2 st)
  then show ?case by simp
next
  case (3 s ss st)
  obtain s1 st1 where a: "computeDefaultRenderOrder s st = (s1, st1)" by fastforce
  obtain ss1 st2 where c: "computeDefaultRenderOrders ss st1 = (ss1, st2)" by fastforce
  from "3.prems"(1) a c have ss': "ss' = s1 # ss1" by simp
  have g1: "map_of (biasGroups st1) g = Some v"
    using cdro_groups_mono(1) [OF a "3.prems"(2)] .
  from "3.prems"(5) ss' consider "r \<in> set (allStyles s1)" | "r \<in> set (allStylesOf ss1)"
    by auto
  then show ?case
  proof cases
    case 1
    show ?thesis
      using "3.IH"(1) [OF a "3.prems"(2) "3.prems"(3) "3.prems"(4) 1 "3.prems"(6)] .
  next
    case 2
    show ?thesis
      using "3.IH"(2) [OF a [symmetric] c g1 "3.prems"(3) "3.prems"(4) 2 "3.prems"(6)] .
  qed
qed

lemma cdro_ranged:
  "computeDefaultRenderOrder (s :: ('j, 'x, 'p) style) st = (s', st') \<Longrightarrow> g \<noteq> [] \<Longrightarrow>
     r \<in> set (allStyles s') \<Longrightarrow> renderOrderBiasGroup (decl r) = Some g \<Longrightarrow>
     renderOrderBiasRange (decl r) \<noteq> None \<Longrightarrow>
     \<exists>w. map_of (biasGroups st') g = Some w \<and> (numberTruthy w \<longrightarrow> renderOrder (decl r) = Some w)"
  "computeDefaultRenderOrders (ss :: ('j, 'x, 'p) style list) st = (ss', st') \<Longrightarrow> g \<noteq> [] \<Longrightarrow>
     r \<in> set (allStylesOf ss') \<Longrightarrow> renderOrderBiasGroup (decl r) = Some g \<Longrightarrow>
     renderOrderBiasRange (decl r) \<noteq> None \<Longrightarrow>
     \<exists>w. map_of (biasGroups st') g = Some w \<and> (numberTruthy w \<longrightarrow> renderOrder (decl r) = Some w)"
proof (induction s st and ss st arbitrary: s' st' and ss' st'
    rule: computeDefaultRenderOrder_computeDefaultRenderOrders.induct)
  case (1 d n kids st)
  obtain d1 st1 where b: "applyRenderOrderBias d st = (d1, st1)" by fastforce
  show ?case
  proof (cases kids)
    case None
    from cdro_leaf [OF "1.prems"(1) [unfolded None] b]
    obtain d2 n2 where s': "s' = Style d2 n2 None"
      and bg: "biasGroups st' = biasGroups st1"
      and f: "renderOrderBiasGroup d2 = renderOrderBiasGroup d"
         "renderOrderBiasRange d2 = renderOrderBiasRange d"
      and ro: "\<forall>v. renderOrder d1 = Some v \<longrightarrow> renderOrder d2 = Some v" by blast
    from "1.prems"(3) s' have r: "r = Style d2 n2 None" by simp
    with "1.prems"(4,5) f have "renderOrderBiasGroup d = Some g" "renderOrderBiasRange d \<noteq> None"
      by simp_all
    from applyBias_range [OF b this(1) "1.prems"(2) this(2)] ro r bg
    show ?thesis by auto
  next
    case (Some cs)
    from cdro_inner [OF "1.prems"(1) [unfolded Some] b]
    obtain cs' where s': "s' = Style d1 n (Some cs')"
      and c: "computeDefaultRenderOrders cs st1 = (cs', st')" by blast
    from "1.prems"(3) s' consider "r = Style d1 n (Some cs')" | "r \<in> set (allStylesOf cs')"
      by auto
    then show ?thesis
    proof cases
      case 1
      with "1.prems"(4,5) applyBias_fields [OF b]
      have "renderOrderBiasGroup d = Some g" "renderOrderBiasRange d \<noteq> None" by simp_all
      from applyBias_range [OF b this(1) "1.prems"(2) this(2)]
      obtain w where w: "map_of (biasGroups st1) g = Some w"
        "numberTruthy w \<longrightarrow> renderOrder d1 = Some w" by blast
      from cdro_groups_mono(2) [OF c w(1)] w(2) 1 show ?thesis by simp
    next
      case 2
      show ?thesis
        using "1.IH" [OF b [symmetric] Some c "1.prems"(2) 2 "1.prems"(4) "1.prems"(5)] .
    qed
  qed
next
  case (2 st)
  then show ?case by simp
next
  case (3 s ss st)
  obtain s1 st1 where a: "computeDefaultRenderOrder s st = (s1, st1)" by fastforce
  obtain ss1 st2 where c: "computeDefaultRenderOrders ss st1 = (ss1, st2)" by fastforce
  from "3.prems"(1) a c have ss': "ss' = s1 # ss1" and st': "st' = st2" by simp_all
  from "3.prems"(3) ss' consider "r \<in> set (allStyles s1)" | "r \<in> set (allStylesOf ss1)"
    by auto
  then show ?case
  proof cases
    case 1
    from "3.IH"(1) [OF a "3.prems"(2) 1 "3.prems"(4) "3.prems"(5)]
    obtain w where w: "map_of (biasGroups st1) g = Some w"
      "numberTruthy w \<longrightarrow> renderOrder (decl r) = Some w" by blast
    from cdro_groups_mono(2) [OF c w(1)] w(2) st' show ?thesis by simp
  next
    case 2
    show ?thesis
      using "3.IH"(2) [OF a [symmetric] c "3.prems"(2) 2 "3.prems"(4) "3.prems"(5)] st' by simp
  qed
qed

lemma cdro_later:
  "computeDefaultRenderOrder (s :: ('j, 'x, 'p) style) st = (s', st') \<Longrightarrow>
     allStyles s' = pre @ r # post \<Longrightarrow> g \<noteq> [] \<Longrightarrow>
     renderOrderBiasGroup (decl r) = Some g \<Longrightarrow> renderOrderBiasRange (decl r) \<noteq> None \<Longrightarrow>
     map_of (biasGroups st') g = Some v \<Longrightarrow> numberTruthy v \<Longrightarrow>
     r' \<in> set post \<Longrightarrow> renderOrderBiasGroup (decl r') = Some g \<Longrightarrow>
     renderOrder (decl r') = Some v"
  "computeDefaultRenderOrders (ss :: ('j, 'x, 'p) style list) st = (ss', st') \<Longrightarrow>
     allStylesOf ss' = pre @ r # post \<Longrightarrow> g \<noteq> [] \<Longrightarrow>
     renderOrderBiasGroup (decl r) = Some g \<Longrightarrow> renderOrderBiasRange (decl r) \<noteq> None \<Longrightarrow>
     map_of (biasGroups st') g = Some v \<Longrightarrow> numberTruthy v \<Longrightarrow>
     r' \<in> set post \<Longrightarrow> renderOrderBiasGroup (decl r') = Some g \<Longrightarrow>
     renderOrder (decl r') = Some v"
proof (induction s st and ss st arbitrary: s' st' pre post and ss' st' pre post
    rule: computeDefaultRenderOrder_computeDefaultRenderOrders.induct)
  case (1 d n kids st)
  obtain d1 st1 where b: "applyRenderOrderBias d st = (d1, st1)" by fastforce
  show ?case
  proof (cases kids)
    case None
    from cdro_leaf [OF "1.prems"(1) [unfolded None] b]
    obtain d2 n2 where s': "s' = Style d2 n2 None" by blast
    with "1.prems"(2) have "post = []" by (cases pre) simp_all
    with "1.prems"(8) show ?thesis by simp
  next
    case (Some cs)
    from cdro_inner [OF "1.prems"(1) [unfolded Some] b]
    obtain cs' where s': "s' = Style d1 n (Some cs')"
      and c: "computeDefaultRenderOrders cs st1 = (cs', st')" by blast
    show ?thesis
    proof (cases pre)
      case Nil
      with "1.prems"(2) s' have r: "r = Style d1 n (Some cs')" and post: "post = allStylesOf cs'"
        by simp_all
      with "1.prems"(4,5) applyBias_fields [OF b]
      have "renderOrderBiasGroup d = Some g" "renderOrderBiasRange d \<noteq> None" by simp_all
      from applyBias_range [OF b this(1) "1.prems"(3) this(2)]
      obtain w where w: "map_of (biasGroups st1) g = Some w" by blast
      from cdro_groups_mono(2) [OF c w] "1.prems"(6) have "w = v" by simp
      with w have "map_of (biasGroups st1) g = Some v" by simp
      from cdro_before(2) [OF c this "1.prems"(7) "1.prems"(3) _ "1.prems"(9)] "1.prems"(8) post
      show ?thesis by simp
    next
      case (Cons x pre')
      with "1.prems"(2) s' have "allStylesOf cs' = pre' @ r # post" by simp
      from "1.IH" [OF b [symmetric] Some c this "1.prems"(3-9)] show ?thesis .
    qed
  qed
next
  case (2 st)
  then show ?case by simp
next
  case (3 s ss st)
  obtain s1 st1 where a: "computeDefaultRenderOrder s st = (s1, st1)" by fastforce
  obtain ss1 st2 where c: "computeDefaultRenderOrders ss st1 = (ss1, st2)" by fastforce
  from "3.prems"(1) a c have ss': "ss' = s1 # ss1" and st': "st' = st2" by simp_all
  from "3.prems"(2) ss' have "allStyles s1 @ allStylesOf ss1 = pre @ r # post" by simp
  then consider us where "allStyles s1 = pre @ us" "us @ allStylesOf ss1 = r # post"
    | us where "allStyles s1 @ us = pre" "allStylesOf ss1 = us @ r # post"
    by (auto simp: append_eq_append_conv2)
  then show ?case
  proof cases
    case 1
    show ?thesis
    proof (cases us)
      case Nil
      with 1 have "allStylesOf ss1 = [] @ r # post" by simp
      from "3.IH"(2) [OF a [symmetric] c this "3.prems"(3-5) _ "3.prems"(7-9)] "3.prems"(6) st'
      show ?thesis by simp
    next
      case (Cons u us')
      with 1 have s1: "allStyles s1 = pre @ r # us'" and post: "post = us' @ allStylesOf ss1"
        by simp_all
      from s1 have rin: "r \<in> set (allStyles s1)" by simp
      from cdro_ranged(1) [OF a "3.prems"(3) rin "3.prems"(4,5)]
      obtain w where w: "map_of (biasGroups st1) g = Some w" by blast
      from cdro_groups_mono(2) [OF c w] "3.prems"(6) st' have "w = v" by simp
      with w have g1: "map_of (biasGroups st1) g = Some v" by simp
      from "3.prems"(8) post consider "r' \<in> set us'" | "r' \<in> set (allStylesOf ss1)" by auto
      then show ?thesis
      proof cases
        case 1
        from "3.IH"(1) [OF a s1 "3.prems"(3-5) g1 "3.prems"(7) 1 "3.prems"(9)] show ?thesis .
      next
        case 2
        from cdro_before(2) [OF c g1 "3.prems"(7) "3.prems"(3) 2 "3.prems"(9)] show ?thesis .
      qed
    qed
  next
    case 2
    from "3.IH"(2) [OF a [symmetric] c 2(2) "3.prems"(3-5) _ "3.prems"(7-9)] "3.prems"(6) st'
    show ?thesis by simp
  qed
qed

lemma constructorLoop_Some:
  "constructorLoop (map Some ss) st = Inr (computeDefaultRenderOrders ss st)"
  by (induction ss arbitrary: st) (auto split: prod.splits)

lemma constructorLoop_Inr:
  "constructorLoop os st = Inr (ss', st') \<Longrightarrow>
     \<exists>ss. os = map Some ss \<and> computeDefaultRenderOrders ss st = (ss', st')"
proof (induction os st arbitrary: ss' st' rule: constructorLoop.induct)
  case (1 st)
  then show ?case by simp
next
  case (2 rest st)
  then show ?case by simp
next
  case (3 s rest st)
  obtain s1 st1 where a: "computeDefaultRenderOrder s st = (s1, st1)" by fastforce
  with "3.prems" obtain ss1 where r: "constructorLoop rest st1 = Inr (ss1, st')" "ss' = s1 # ss1"
    by (auto split: sum.splits)
  from "3.IH" [OF a [symmetric] r(1)] obtain ss where
    "rest = map Some ss" "computeDefaultRenderOrders ss st1 = (ss1, st')" by blast
  with a r(2) have "Some s # rest = map Some (s # ss) \<and>
      computeDefaultRenderOrders (s # ss) st = (ss', st')" by simp
  then show ?case by (intro exI [of _ "s # ss"])
qed

lemma cloneStyles_map_Some:
  "map cloneStyle ds = map Some ss \<Longrightarrow> cloneStyles ds = ss"
  by (induction ds arbitrary: ss) auto


subsection \<open>Rules of one bias group\<close>

text \<open>
  Claim C1 says that any two rules with the same non-empty \<^verbatim>\<open>renderOrderBiasGroup\<close> get
  equal render orders. The constructor records a group only at a rule that carries a
  \<^verbatim>\<open>renderOrderBiasRange\<close>: two rules of a group that never has a range are numbered by the
  counter like any other leaf, here with 0 and 1.
\<close>

theorem bias_group_without_range_counterexample:
  "map_sum id resolvedRenderOrders
     (StyleSetEvaluator
        [Declaration (plainRule\<lparr>technique := Some ''line'', renderOrderBiasGroup := Some ''g''\<rparr>) None,
         Declaration (plainRule\<lparr>technique := Some ''line'', renderOrderBiasGroup := Some ''g''\<rparr>) None]
      :: error + (unit, unit, unit) evaluator)
   = Inr [(Some ''g'', Some (Finite 0)), (Some ''g'', Some (Finite 1))]"
  by (simp add: ctor_eval)


text \<open>
  The recorded order is taken over under the test \<^verbatim>\<open>else if (renderOrderBiasGroupOrder)\<close>,
  which fails for the order 0: a group recorded with order 0 is not taken over either.
\<close>

lemma bias_group_order_zero_not_reused:
  "map_sum id resolvedRenderOrders
     (StyleSetEvaluator
        [Declaration (plainRule\<lparr>technique := Some ''line'', renderOrderBiasGroup := Some ''g'',
                        renderOrderBiasRange := Some (Finite 0, Finite 1)\<rparr>) None,
         Declaration (plainRule\<lparr>technique := Some ''line'', renderOrderBiasGroup := Some ''g'',
                        renderOrderBiasRange := Some (Finite 0, Finite 1)\<rparr>) None]
      :: error + (unit, unit, unit) evaluator)
   = Inr [(Some ''g'', Some (Finite 0)), (Some ''g'', Some (Finite 2))]"
  by (simp add: ctor_eval)


text \<open>
  Claim C1, amended: two rules with the same non-empty group get the same render order when
  neither comes, in pre-order, before a rule of the group that carries a range (the rule \<open>r0\<close>
  below; the first such rule of the group covers the most), and the order recorded for the
  group is not 0. The test of line 137 fails for \<^verbatim>\<open>NaN\<close> as it does for 0, so the recorded
  order is not \<^verbatim>\<open>NaN\<close> either.
\<close>

theorem bias_group_render_orders_equal:
  assumes "StyleSetEvaluator decls = Inr (ev :: ('j, 'x, 'p) evaluator)"
    and "allStylesOf (styleSet ev) = pre @ r0 # rest"
    and "renderOrderBiasGroup (decl r0) = Some g"
    and "g \<noteq> []"
    and "renderOrderBiasRange (decl r0) \<noteq> None"
    and "map_of (m_renderOrderBiasGroups ev) g \<noteq> Some (Finite 0)"
    and "map_of (m_renderOrderBiasGroups ev) g \<noteq> Some NaN"
    and "r \<in> set (r0 # rest)" "renderOrderBiasGroup (decl r) = Some g"
    and "r' \<in> set (r0 # rest)" "renderOrderBiasGroup (decl r') = Some g"
  shows "renderOrder (decl r) = renderOrder (decl r')"
proof -
  from assms(1) obtain ss' st' where
    l: "constructorLoop (map cloneStyle decls) initialCtorState = Inr (ss', st')"
    and ev: "ev = \<lparr>styleSet = ss', m_renderOrderBiasGroups = biasGroups st',
                   m_techniques = [], logged = warned st'\<rparr>"
    by (auto simp: StyleSetEvaluator_def split: sum.splits)
  from constructorLoop_Inr [OF l] obtain ss where
    c: "computeDefaultRenderOrders ss initialCtorState = (ss', st')" by blast
  from assms(2) ev have dec: "allStylesOf ss' = pre @ r0 # rest" by simp
  then have rin: "r0 \<in> set (allStylesOf ss')" by simp
  from cdro_ranged(2) [OF c assms(4) rin assms(3) assms(5)]
  obtain w where w: "map_of (biasGroups st') g = Some w"
    "numberTruthy w \<longrightarrow> renderOrder (decl r0) = Some w" by blast
  from w(1) assms(6,7) ev have w0: "numberTruthy w" by (cases w) auto
  have recorded: "renderOrder (decl x) = Some w"
    if "x \<in> set (r0 # rest)" "renderOrderBiasGroup (decl x) = Some g" for x
  proof (cases "x = r0")
    case True
    with w(2) w0 show ?thesis by simp
  next
    case False
    with that(1) have "x \<in> set rest" by simp
    from cdro_later(2) [OF c dec assms(4) assms(3) assms(5) w(1) w0 this that(2)]
    show ?thesis .
  qed
  from recorded [OF assms(8,9)] recorded [OF assms(10,11)] show ?thesis by simp
qed

theorem bias_group_render_orders_equal_witness:
  "(let ev = projr (StyleSetEvaluator biasExample :: error + (unit, unit, unit) evaluator);
        rs = allStylesOf (styleSet ev)
    in StyleSetEvaluator biasExample = Inr ev \<and>
       rs = [rs ! 0] @ rs ! 1 # [rs ! 2] \<and>
       renderOrderBiasGroup (decl (rs ! 1)) = Some ''g'' \<and>
       renderOrderBiasRange (decl (rs ! 1)) \<noteq> None \<and>
       map_of (m_renderOrderBiasGroups ev) ''g'' \<noteq> Some (Finite 0) \<and>
       map_of (m_renderOrderBiasGroups ev) ''g'' \<noteq> Some NaN \<and>
       rs ! 1 \<in> set (rs ! 1 # [rs ! 2]) \<and>
       rs ! 2 \<in> set (rs ! 1 # [rs ! 2]) \<and>
       renderOrderBiasGroup (decl (rs ! 2)) = Some ''g'' \<and>
       renderOrder (decl (rs ! 1)) = Some (Finite 1) \<and>
       renderOrder (decl (rs ! 1)) = renderOrder (decl (rs ! 2)))"
proof -
  define ev where "ev = projr (StyleSetEvaluator biasExample :: error + (unit, unit, unit) evaluator)"
  define rs where "rs = allStylesOf (styleSet ev)"
  have 1: "StyleSetEvaluator biasExample = Inr ev"
    unfolding ev_def by (simp add: ctor_eval biasExample_def)
  have 2: "allStylesOf (styleSet ev) = [rs ! 0] @ rs ! 1 # [rs ! 2]"
    unfolding rs_def ev_def by (simp add: ctor_eval biasExample_def)
  have 3: "renderOrderBiasGroup (decl (rs ! 1)) = Some ''g''"
    unfolding rs_def ev_def by (simp add: ctor_eval biasExample_def)
  have 4: "''g'' \<noteq> []" by simp
  have 5: "renderOrderBiasRange (decl (rs ! 1)) \<noteq> None"
    unfolding rs_def ev_def by (simp add: ctor_eval biasExample_def)
  have 6: "map_of (m_renderOrderBiasGroups ev) ''g'' \<noteq> Some (Finite 0)"
    unfolding ev_def by (simp add: ctor_eval biasExample_def)
  have nan: "map_of (m_renderOrderBiasGroups ev) ''g'' \<noteq> Some NaN"
    unfolding ev_def by (simp add: ctor_eval biasExample_def)
  have 7: "rs ! 1 \<in> set (rs ! 1 # [rs ! 2])" by simp
  have 8: "rs ! 2 \<in> set (rs ! 1 # [rs ! 2])" by simp
  have 9: "renderOrderBiasGroup (decl (rs ! 2)) = Some ''g''"
    unfolding rs_def ev_def by (simp add: ctor_eval biasExample_def)
  have 10: "renderOrder (decl (rs ! 1)) = Some (Finite 1)"
    unfolding rs_def ev_def by (simp add: ctor_eval biasExample_def)
  have "renderOrder (decl (rs ! 1)) = renderOrder (decl (rs ! 2))"
    using bias_group_render_orders_equal [OF 1 2 3 4 5 6 nan 7 3 8 9] .
  with 1 2 3 5 6 nan 9 10 show ?thesis
    unfolding Let_def ev_def [symmetric] rs_def [symmetric] by simp
qed


subsection \<open>Render orders from the counter\<close>

lemma applyBias_no_group:
  "renderOrderBiasGroup d = None \<Longrightarrow> applyRenderOrderBias d st = (d, st)"
  by (simp add: applyRenderOrderBias_def)

lemma applyBias_counter:
  "applyRenderOrderBias d st = (d1, st1) \<Longrightarrow>
     techniqueRenderOrder st1 = techniqueRenderOrder st \<or>
     (\<exists>g minRange maxRange.
        renderOrderBiasGroup d = Some g \<and> renderOrderBiasRange d = Some (minRange, maxRange) \<and>
        techniqueRenderOrder st1 =
          numberAdd (numberAdd (techniqueRenderOrder st) (numberAdd (Math_abs minRange) maxRange))
            (Finite 1))"
  by (auto simp: applyRenderOrderBias_def Let_def warnOverridden_def
      split: option.splits prod.splits if_splits)

lemma blockSteps_nonneg: "0 \<le> blockSteps d"
  by (auto simp: blockSteps_def split: option.splits prod.splits number.splits)

lemma counterSteps_nonneg: "0 \<le> counterSteps s"
  using blockSteps_nonneg [of "decl s"] by (simp add: counterSteps_def)

lemma counterSteps_sum_nonneg: "0 \<le> sum_list (map counterSteps ss)"
  by (induction ss) (simp_all add: counterSteps_nonneg)

lemma applyBias_exact:
  assumes b: "applyRenderOrderBias d st = (d1, st1)"
    and whole: "wholeRange (Style d n kids)"
    and tro: "techniqueRenderOrder st = integer c"
    and c0: "0 \<le> c"
    and bound: "of_int c + blockSteps d \<le> 2 ^ 53"
  shows "\<exists>c1. techniqueRenderOrder st1 = integer c1 \<and> c \<le> c1 \<and>
           of_int c1 \<le> of_int c + blockSteps d"
proof -
  from applyBias_counter [OF b] consider
    (same) "techniqueRenderOrder st1 = techniqueRenderOrder st"
  | (moved) g minRange maxRange where
      "renderOrderBiasGroup d = Some g" "renderOrderBiasRange d = Some (minRange, maxRange)"
      "techniqueRenderOrder st1 =
         numberAdd (numberAdd (techniqueRenderOrder st) (numberAdd (Math_abs minRange) maxRange))
           (Finite 1)"
    by blast
  then show ?thesis
  proof cases
    case same
    with tro blockSteps_nonneg [of d] show ?thesis by (intro exI [of _ c]) simp
  next
    case moved
    from whole moved(1,2) obtain a b where
      ab: "minRange = Finite a" "maxRange = Finite b" "of_int \<lfloor>a\<rfloor> = a" "of_int \<lfloor>b\<rfloor> = b"
        "0 \<le> \<bar>a\<bar> + b + 1"
      by (cases minRange; cases maxRange) (auto simp: wholeRange_def)
    from ab(3,4) obtain i j where a: "a = of_int i" and b: "b = of_int j"
      by (metis of_int_floor_cancel)
    have mn: "minRange = integer i" and mx: "maxRange = integer j"
      using ab(1,2) a b by (simp_all add: integer_def)
    have blk: "blockSteps d = of_int (\<bar>i\<bar> + \<bar>j\<bar> + 1)"
      using moved(1,2) ab(1,2) a b by (simp add: blockSteps_def)
    from bound blk have "(of_int (c + (\<bar>i\<bar> + \<bar>j\<bar> + 1)) :: rat) \<le> 2 ^ 53" by simp
    then have hi: "c + (\<bar>i\<bar> + \<bar>j\<bar> + 1) \<le> 2 ^ 53"
      by (simp only: of_int_le_numeral_power_cancel_iff)
    from ab(5) a b have "(0 :: rat) \<le> of_int (\<bar>i\<bar> + j + 1)" by simp
    then have lo: "0 \<le> \<bar>i\<bar> + j + 1" by (simp only: of_int_0_le_iff)
    have 1: "numberAdd (Math_abs minRange) maxRange = integer (\<bar>i\<bar> + j)"
      unfolding mn mx Math_abs_integer using hi lo c0 by (intro numberAdd_integer) simp
    have 2: "numberAdd (integer c) (integer (\<bar>i\<bar> + j)) = integer (c + (\<bar>i\<bar> + j))"
      using hi lo c0 by (intro numberAdd_integer) simp
    have 3: "numberAdd (integer (c + (\<bar>i\<bar> + j))) (integer 1) = integer (c + (\<bar>i\<bar> + j) + 1)"
      using hi lo c0 by (intro numberAdd_integer) simp
    have one: "Finite 1 = integer 1" by (simp add: integer_def)
    have "techniqueRenderOrder st1 = integer (c + (\<bar>i\<bar> + j) + 1)"
      unfolding moved(3) tro 1 2 one 3 ..
    moreover have "c \<le> c + (\<bar>i\<bar> + j) + 1" using lo by simp
    moreover have "(of_int (c + (\<bar>i\<bar> + j) + 1) :: rat) \<le> of_int c + blockSteps d"
      unfolding blk by simp
    ultimately show ?thesis by blast
  qed
qed

lemma cdro_length:
  "computeDefaultRenderOrder (s :: ('j, 'x, 'p) style) st = (s', st') \<Longrightarrow>
     length (allStyles s') = length (allStyles s)"
  "computeDefaultRenderOrders (ss :: ('j, 'x, 'p) style list) st = (ss', st') \<Longrightarrow>
     length (allStylesOf ss') = length (allStylesOf ss)"
proof (induction s st and ss st arbitrary: s' st' and ss' st'
    rule: computeDefaultRenderOrder_computeDefaultRenderOrders.induct)
  case (1 d n kids st)
  obtain d1 st1 where b: "applyRenderOrderBias d st = (d1, st1)" by fastforce
  show ?case
  proof (cases kids)
    case None
    from cdro_leaf [OF "1.prems"(1) [unfolded None] b] None show ?thesis by auto
  next
    case (Some cs)
    from cdro_inner [OF "1.prems"(1) [unfolded Some] b]
    obtain cs' where s': "s' = Style d1 n (Some cs')"
      and c: "computeDefaultRenderOrders cs st1 = (cs', st')" by blast
    from "1.IH" [OF b [symmetric] Some c] s' Some show ?thesis by simp
  qed
next
  case (2 st)
  then show ?case by simp
next
  case (3 s ss st)
  obtain s1 st1 where a: "computeDefaultRenderOrder s st = (s1, st1)" by fastforce
  obtain ss1 st2 where c: "computeDefaultRenderOrders ss st1 = (ss1, st2)" by fastforce
  from "3.prems"(1) a c have ss': "ss' = s1 # ss1" by simp
  from "3.IH"(1) [OF a] "3.IH"(2) [OF a [symmetric] c] ss' show ?case by simp
qed

lemma autoAssigned_append:
  "length is1 = length os1 \<Longrightarrow>
     autoAssigned (is1 @ is2) (os1 @ os2) = autoAssigned is1 os1 @ autoAssigned is2 os2"
  by (simp add: autoAssigned_def)

lemma countedBetween_append:
  assumes "countedBetween lo mid os1" "countedBetween mid hi os2"
  shows "countedBetween lo hi (os1 @ os2)"
proof -
  from assms obtain xs ys where
    xs: "os1 = map (\<lambda>x. Some (integer x)) xs" "sorted_wrt (<) xs"
      "\<forall>x\<in>set xs. lo \<le> x \<and> x < mid" and
    ys: "os2 = map (\<lambda>x. Some (integer x)) ys" "sorted_wrt (<) ys"
      "\<forall>x\<in>set ys. mid \<le> x \<and> x < hi" and
    le: "lo \<le> mid" "mid \<le> hi"
    unfolding countedBetween_def by blast
  have "os1 @ os2 = map (\<lambda>x. Some (integer x)) (xs @ ys)" using xs(1) ys(1) by simp
  moreover have "sorted_wrt (<) (xs @ ys)"
    using xs(2,3) ys(2,3) by (fastforce simp: sorted_wrt_append)
  moreover have "\<forall>x\<in>set (xs @ ys). lo \<le> x \<and> x < hi"
    using xs(3) ys(3) le by fastforce
  ultimately show ?thesis
    using le unfolding countedBetween_def by (intro conjI exI [of _ "xs @ ys"]) auto
qed

lemma countedBetween_lower:
  "lo' \<le> lo \<Longrightarrow> countedBetween lo hi os \<Longrightarrow> countedBetween lo' hi os"
  unfolding countedBetween_def by fastforce

lemma countedBetween_Nil: "lo \<le> hi \<Longrightarrow> countedBetween lo hi []"
  by (simp add: countedBetween_def)

lemma countedBetween_single: "countedBetween c (c + 1) [Some (integer c)]"
  unfolding countedBetween_def by (intro conjI exI [of _ "[c]"]) simp_all

lemma cdro_leaf_counter:
  assumes "computeDefaultRenderOrder (Style d n None) st = (s', st')"
    and "applyRenderOrderBias d st = (d1, st1)"
  shows "techniqueRenderOrder st' = techniqueRenderOrder st1 \<or>
         techniqueRenderOrder st' = numberAdd (techniqueRenderOrder st1) (Finite 1)"
  using assms by (auto simp: Let_def split: if_splits)

lemma cdro_autoLeaf:
  assumes "computeDefaultRenderOrder (Style d n None) st = (s', st')"
    and "autoLeaf (Style d n None)"
  shows "renderOrder (decl s') = Some (techniqueRenderOrder st) \<and>
         techniqueRenderOrder st' = numberAdd (techniqueRenderOrder st) (Finite 1)"
  using assms by (auto simp: autoLeaf_def applyBias_no_group Let_def)

lemma numberAdd_one:
  assumes "0 \<le> c" "c + 1 \<le> 2 ^ 53"
  shows "numberAdd (integer c) (Finite 1) = integer (c + 1)"
proof -
  have "Finite 1 = integer 1" by (simp add: integer_def)
  then show ?thesis using assms numberAdd_integer [of c 1] by simp
qed

lemma of_int_bound:
  "(of_int c :: rat) + 1 \<le> 2 ^ 53 \<Longrightarrow> c + 1 \<le> 2 ^ 53"
proof -
  assume "(of_int c :: rat) + 1 \<le> 2 ^ 53"
  then have "(of_int (c + 1) :: rat) \<le> 2 ^ 53" by simp
  then show ?thesis by (simp only: of_int_le_numeral_power_cancel_iff)
qed

lemma cdro_counted:
  "computeDefaultRenderOrder (s :: ('j, 'x, 'p) style) st = (s', st') \<Longrightarrow>
     \<forall>r\<in>set (allStyles s). wholeRange r \<Longrightarrow>
     techniqueRenderOrder st = integer c \<Longrightarrow> 0 \<le> c \<Longrightarrow>
     of_int c + sum_list (map counterSteps (allStyles s)) \<le> 2 ^ 53 \<Longrightarrow>
     \<exists>c'. techniqueRenderOrder st' = integer c' \<and>
          of_int c' \<le> of_int c + sum_list (map counterSteps (allStyles s)) \<and>
          countedBetween c c' (autoAssigned (allStyles s) (allStyles s'))"
  "computeDefaultRenderOrders (ss :: ('j, 'x, 'p) style list) st = (ss', st') \<Longrightarrow>
     \<forall>r\<in>set (allStylesOf ss). wholeRange r \<Longrightarrow>
     techniqueRenderOrder st = integer c \<Longrightarrow> 0 \<le> c \<Longrightarrow>
     of_int c + sum_list (map counterSteps (allStylesOf ss)) \<le> 2 ^ 53 \<Longrightarrow>
     \<exists>c'. techniqueRenderOrder st' = integer c' \<and>
          of_int c' \<le> of_int c + sum_list (map counterSteps (allStylesOf ss)) \<and>
          countedBetween c c' (autoAssigned (allStylesOf ss) (allStylesOf ss'))"
proof (induction s st and ss st arbitrary: s' st' c and ss' st' c
    rule: computeDefaultRenderOrder_computeDefaultRenderOrders.induct)
  case (1 d n kids st)
  obtain d1 st1 where b: "applyRenderOrderBias d st = (d1, st1)" by fastforce
  from "1.prems"(2) have whole: "wholeRange (Style d n kids)" by simp
  let ?below = "case kids of None \<Rightarrow> [] | Some cs \<Rightarrow> allStylesOf cs"
  have total: "sum_list (map counterSteps (allStyles (Style d n kids)))
      = blockSteps d + (if kids = None then 1 else 0) + sum_list (map counterSteps ?below)"
    by (simp add: counterSteps_def)
  have rest0: "0 \<le> sum_list (map counterSteps ?below)" by (rule counterSteps_sum_nonneg)
  from "1.prems"(5) total rest0 have "of_int c + blockSteps d \<le> 2 ^ 53"
    by (simp split: if_splits)
  from applyBias_exact [OF b whole "1.prems"(3,4) this]
  obtain c1 where c1: "techniqueRenderOrder st1 = integer c1" "c \<le> c1"
    "of_int c1 \<le> of_int c + blockSteps d" by blast
  show ?case
  proof (cases kids)
    case None
    have sum: "sum_list (map counterSteps (allStyles (Style d n kids))) = blockSteps d + 1"
      using total None by simp
    from "1.prems"(5) sum c1(3) have "(of_int c1 :: rat) + 1 \<le> 2 ^ 53" by simp
    then have c1hi: "c1 + 1 \<le> 2 ^ 53" by (rule of_int_bound)
    from c1(2) "1.prems"(4) have c10: "0 \<le> c1" by simp
    show ?thesis
    proof (cases "autoLeaf (Style d n None)")
      case True
      then have "renderOrderBiasGroup d = None" by (simp add: autoLeaf_def)
      with b have "st1 = st" by (simp add: applyBias_no_group)
      with c1(1) "1.prems"(3) have same: "c1 = c" by simp
      from cdro_autoLeaf [OF "1.prems"(1) [unfolded None] True] "1.prems"(3)
      have ro: "renderOrder (decl s') = Some (integer c)"
        and st': "techniqueRenderOrder st' = numberAdd (integer c) (Finite 1)" by simp_all
      from st' numberAdd_one [OF "1.prems"(4)] c1hi same
      have st'': "techniqueRenderOrder st' = integer (c + 1)" by simp
      from cdro_leaf [OF "1.prems"(1) [unfolded None] b]
      obtain d2 n2 where s': "s' = Style d2 n2 None" by blast
      have "autoAssigned (allStyles (Style d n kids)) (allStyles s') = [Some (integer c)]"
        using True None s' ro by (simp add: autoAssigned_def)
      moreover have "(of_int (c + 1) :: rat) \<le> of_int c + (blockSteps d + 1)"
        using blockSteps_nonneg [of d] by simp
      ultimately show ?thesis
        using st'' sum countedBetween_single [of c] by (intro exI [of _ "c + 1"]) simp
    next
      case False
      from cdro_leaf [OF "1.prems"(1) [unfolded None] b]
      obtain d2 n2 where s': "s' = Style d2 n2 None" by blast
      have none: "autoAssigned (allStyles (Style d n kids)) (allStyles s') = []"
        using False None s' by (simp add: autoAssigned_def)
      from cdro_leaf_counter [OF "1.prems"(1) [unfolded None] b] c1(1)
      consider "techniqueRenderOrder st' = integer c1"
        | "techniqueRenderOrder st' = numberAdd (integer c1) (Finite 1)" by auto
      then show ?thesis
      proof cases
        case 1
        moreover have "(of_int c1 :: rat) \<le> of_int c + (blockSteps d + 1)" using c1(3) by simp
        ultimately show ?thesis
          using none sum c1(2) by (intro exI [of _ c1]) (simp add: countedBetween_Nil)
      next
        case 2
        with numberAdd_one [OF c10 c1hi] have "techniqueRenderOrder st' = integer (c1 + 1)"
          by simp
        moreover have "(of_int (c1 + 1) :: rat) \<le> of_int c + (blockSteps d + 1)"
          using c1(3) by simp
        ultimately show ?thesis
          using none sum c1(2) by (intro exI [of _ "c1 + 1"]) (simp add: countedBetween_Nil)
      qed
    qed
  next
    case (Some cs)
    from cdro_inner [OF "1.prems"(1) [unfolded Some] b]
    obtain cs' where s': "s' = Style d1 n (Some cs')"
      and c: "computeDefaultRenderOrders cs st1 = (cs', st')" by blast
    have sum: "sum_list (map counterSteps (allStyles (Style d n kids)))
        = blockSteps d + sum_list (map counterSteps (allStylesOf cs))"
      using total Some by simp
    from "1.prems"(2) Some have ok: "\<forall>r\<in>set (allStylesOf cs). wholeRange r" by simp
    from c1(2) "1.prems"(4) have c10: "0 \<le> c1" by simp
    from "1.prems"(5) sum c1(3)
    have "of_int c1 + sum_list (map counterSteps (allStylesOf cs)) \<le> 2 ^ 53" by simp
    from "1.IH" [OF b [symmetric] Some c ok c1(1) c10 this]
    obtain c' where c': "techniqueRenderOrder st' = integer c'"
      "of_int c' \<le> of_int c1 + sum_list (map counterSteps (allStylesOf cs))"
      "countedBetween c1 c' (autoAssigned (allStylesOf cs) (allStylesOf cs'))" by blast
    have "autoAssigned (allStyles (Style d n kids)) (allStyles s')
        = autoAssigned (allStylesOf cs) (allStylesOf cs')"
      using Some s' by (simp add: autoAssigned_def autoLeaf_def)
    moreover have "(of_int c' :: rat) \<le> of_int c + sum_list (map counterSteps (allStyles (Style d n kids)))"
      using c'(2) c1(3) sum by simp
    ultimately show ?thesis
      using c'(1) countedBetween_lower [OF c1(2) c'(3)] by (intro exI [of _ c']) simp
  qed
next
  case (2 st)
  then show ?case by (intro exI [of _ c]) (simp add: autoAssigned_def countedBetween_Nil)
next
  case (3 s ss st)
  obtain s1 st1 where a: "computeDefaultRenderOrder s st = (s1, st1)" by fastforce
  obtain ss1 st2 where c: "computeDefaultRenderOrders ss st1 = (ss1, st2)" by fastforce
  from "3.prems"(1) a c have ss': "ss' = s1 # ss1" and st': "st' = st2" by simp_all
  from "3.prems"(2) have ok: "\<forall>r\<in>set (allStyles s). wholeRange r"
    "\<forall>r\<in>set (allStylesOf ss). wholeRange r" by simp_all
  have len: "length (allStyles s) = length (allStyles s1)" using cdro_length(1) [OF a] by simp
  have sum: "sum_list (map counterSteps (allStylesOf (s # ss)))
      = sum_list (map counterSteps (allStyles s)) + sum_list (map counterSteps (allStylesOf ss))"
    by simp
  from "3.prems"(5) sum counterSteps_sum_nonneg [of "allStylesOf ss"]
  have "of_int c + sum_list (map counterSteps (allStyles s)) \<le> 2 ^ 53" by simp
  from "3.IH"(1) [OF a ok(1) "3.prems"(3,4) this]
  obtain c1 where c1: "techniqueRenderOrder st1 = integer c1"
    "of_int c1 \<le> of_int c + sum_list (map counterSteps (allStyles s))"
    "countedBetween c c1 (autoAssigned (allStyles s) (allStyles s1))" by blast
  from c1(3) "3.prems"(4) have c10: "0 \<le> c1" by (simp add: countedBetween_def)
  from "3.prems"(5) sum c1(2)
  have "of_int c1 + sum_list (map counterSteps (allStylesOf ss)) \<le> 2 ^ 53" by simp
  from "3.IH"(2) [OF a [symmetric] c ok(2) c1(1) c10 this]
  obtain c2 where c2: "techniqueRenderOrder st2 = integer c2"
    "of_int c2 \<le> of_int c1 + sum_list (map counterSteps (allStylesOf ss))"
    "countedBetween c1 c2 (autoAssigned (allStylesOf ss) (allStylesOf ss1))" by blast
  have "(of_int c2 :: rat) \<le> of_int c + sum_list (map counterSteps (allStylesOf (s # ss)))"
    using c2(2) c1(2) sum by simp
  with c2(1) countedBetween_append [OF c1(3) c2(3)] show ?case
    using ss' st' by (intro exI [of _ c2]) (simp add: autoAssigned_append [OF len])
qed

text \<open>Sums of the examples that are not integers up to \<open>2 ^ 53\<close>, rounded.\<close>

lemma roundDouble_examples:
  "roundDouble 9007199254740993 = Finite 9007199254740992"
  "roundDouble (1 / 2) = Finite (1 / 2)"
  "roundDouble (3 / 2) = Finite (3 / 2)"
  "roundDouble (5 / 2) = Finite (5 / 2)"
  by code_simp+

text \<open>
  Claim C2 says that the render orders given by the counter to the leaf rules with a
  technique, no explicit render order and no bias group form a strictly increasing sequence
  of integers in pre-order, for every style set. A rule that reserves a bias block moves the
  counter by \<open>\<bar>min\<bar> + max + 1\<close>, computed in doubles:
  \<^item> for the range \<^verbatim>\<open>[0, -5]\<close> the step is negative, and the leaf after the rule gets -3 where
    the leaf before it got 0;
  \<^item> for the range \<^verbatim>\<open>[0, 9007199254740992]\<close>, which ends at \<open>2 ^ 53\<close>, the counter reaches
    \<open>2 ^ 53\<close>, where adding 1 changes nothing: the two leaves after the rule get the same
    order;
  \<^item> for the range \<^verbatim>\<open>[0, 0.5]\<close> the leaf after the rule gets 2.5.
\<close>

theorem auto_render_orders_counterexample:
  "autoRenderOrders invertedRangeExample = Inr [Some (Finite 0), Some (Finite (- 3))] \<and>
   autoRenderOrders hugeRangeExample
     = Inr [Some (Finite 9007199254740992), Some (Finite 9007199254740992)] \<and>
   autoRenderOrders halfRangeExample = Inr [Some (Finite 0), Some (Finite (5 / 2))]"
  by (simp add: autoRenderOrders_def invertedRangeExample_def hugeRangeExample_def
      halfRangeExample_def ctor_eval autoAssigned_def autoLeaf_def roundDouble_examples)

text \<open>
  Claim C2, amended: when every rule with a bias group and a range \<^verbatim>\<open>[min, max]\<close> has
  integers \<open>min\<close> and \<open>max\<close> with \<open>0 \<le> \<bar>min\<bar> + max + 1\<close> (as every range of integers with
  \<open>min \<le> max\<close> has), and the blocks \<open>\<bar>min\<bar> + \<bar>max\<bar> + 1\<close> of these rules and the number of
  leaf rules add up to \<open>2 ^ 53\<close> at most, the render orders given by the counter to the leaf
  rules with a technique, no explicit render order and no bias group are integers and
  increase strictly in pre-order.
\<close>

theorem auto_render_orders_increasing:
  assumes "StyleSetEvaluator decls = Inr (ev :: ('j, 'x, 'p) evaluator)"
    and "list_all wholeRange (allStylesOf (cloneStyles decls :: ('j, 'x, 'p) style list))"
    and "counterSpan (cloneStyles decls :: ('j, 'x, 'p) style list) \<le> 2 ^ 53"
  shows "\<exists>xs. autoAssigned (allStylesOf (cloneStyles decls)) (allStylesOf (styleSet ev))
                 = map (\<lambda>x. Some (integer x)) xs \<and>
              sorted_wrt (<) xs"
proof -
  from assms(1) obtain ss' st' where
    l: "constructorLoop (map cloneStyle decls) initialCtorState = Inr (ss', st')"
    and ev: "styleSet ev = ss'"
    by (auto simp: StyleSetEvaluator_def split: sum.splits)
  from constructorLoop_Inr [OF l] obtain ss where
    m: "map cloneStyle decls = map Some ss"
    and c: "computeDefaultRenderOrders ss initialCtorState = (ss', st')" by blast
  from cloneStyles_map_Some [OF m] have ss: "cloneStyles decls = ss" .
  have start: "techniqueRenderOrder (initialCtorState :: 'j ctorState) = integer 0"
    by (simp add: initialCtorState_def integer_def)
  from assms(2) ss have whole: "\<forall>r\<in>set (allStylesOf ss). wholeRange r"
    by (simp add: list_all_iff)
  from assms(3) ss have "of_int 0 + sum_list (map counterSteps (allStylesOf ss)) \<le> 2 ^ 53"
    by (simp add: counterSpan_def)
  from cdro_counted(2) [OF c whole start order_refl this] ss ev show ?thesis
    unfolding countedBetween_def by blast
qed

theorem auto_render_orders_increasing_witness:
  "(let ev = projr (StyleSetEvaluator rangeExample :: error + (unit, unit, unit) evaluator)
    in StyleSetEvaluator rangeExample = Inr ev \<and>
       list_all wholeRange (allStylesOf (cloneStyles rangeExample :: (unit, unit, unit) style list)) \<and>
       counterSpan (cloneStyles rangeExample :: (unit, unit, unit) style list) \<le> 2 ^ 53 \<and>
       autoAssigned (allStylesOf (cloneStyles rangeExample)) (allStylesOf (styleSet ev))
         = [Some (Finite 0), Some (Finite 7), Some (Finite 8)] \<and>
       (\<exists>xs. autoAssigned (allStylesOf (cloneStyles rangeExample)) (allStylesOf (styleSet ev))
                = map (\<lambda>x. Some (integer x)) xs \<and> sorted_wrt (<) xs))"
proof -
  define ev where "ev = projr (StyleSetEvaluator rangeExample :: error + (unit, unit, unit) evaluator)"
  have 1: "StyleSetEvaluator rangeExample = Inr ev"
    unfolding ev_def by (simp add: ctor_eval rangeExample_def)
  have 2: "list_all wholeRange
      (allStylesOf (cloneStyles rangeExample :: (unit, unit, unit) style list))"
    by (simp add: rangeExample_def wholeRange_def plainRule_def)
  have 3: "counterSpan (cloneStyles rangeExample :: (unit, unit, unit) style list) \<le> 2 ^ 53"
    by (simp add: rangeExample_def counterSpan_def counterSteps_def blockSteps_def plainRule_def)
  have 4: "autoAssigned (allStylesOf (cloneStyles rangeExample)) (allStylesOf (styleSet ev))
      = [Some (Finite 0), Some (Finite 7), Some (Finite 8)]"
    unfolding ev_def by (simp add: ctor_eval rangeExample_def autoAssigned_def autoLeaf_def)
  from auto_render_orders_increasing [OF 1 2 3] 1 2 3 4 show ?thesis
    unfolding Let_def ev_def [symmetric] by simp
qed


section \<open>Decoded techniques\<close>

lemma update_fresh: "k \<notin> fst ` set al \<Longrightarrow> AList.update k v al = al @ [(k, v)]"
  by (induction al) auto

lemma assignProperty_plain:
  "attrName \<noteq> ''__proto__'' \<Longrightarrow>
     assignProperty attrName attrValue (plainObject props)
       = plainObject (AList.update attrName attrValue props)"
  by (simp add: assignProperty_def plainObject_def)

lemma decode_fold:
  "distinct (map fst (acc @ t)) \<Longrightarrow> ''__proto__'' \<notin> fst ` set t \<Longrightarrow>
     fold (\<lambda>(attrName, attrValue) res.
             if isExpr attrValue then res else assignProperty attrName attrValue res)
       t (plainObject acc)
       = plainObject (acc @ filter (\<lambda>(k, v). \<not> isExpr v) t)"
proof (induction t arbitrary: acc)
  case Nil
  then show ?case by simp
next
  case (Cons a t)
  obtain k v where a: "a = (k, v)" by (cases a)
  from Cons.prems(2) a have k: "k \<noteq> ''__proto__''" and rest: "''__proto__'' \<notin> fst ` set t"
    by auto
  show ?case
  proof (cases "isExpr v")
    case True
    from Cons.prems(1) a have "distinct (map fst (acc @ t))" by simp
    from Cons.IH [OF this rest] True a show ?thesis by simp
  next
    case False
    from Cons.prems(1) a have fresh: "k \<notin> fst ` set acc" by auto
    from Cons.prems(1) a have "distinct (map fst ((acc @ [(k, v)]) @ t))" by simp
    from Cons.IH [OF this rest] False a show ?thesis
      by (simp add: update_fresh [OF fresh] assignProperty_plain [OF k])
  qed
qed

text \<open>
  Claim C9 says that \<^verbatim>\<open>makeDecodedTechnique\<close> returns, for every technique, the own
  attributes of its input whose values are not \<^verbatim>\<open>Expr\<close> instances. The function tests every
  attribute with \<^verbatim>\<open>technique.hasOwnProperty\<close> and assigns what it keeps to a new object:
  \<^item> a technique without a prototype has no such method, and the call throws;
  \<^item> so does the call on a technique with an attribute \<^verbatim>\<open>hasOwnProperty\<close> of its own;
  \<^item> an attribute \<^verbatim>\<open>__proto__\<close> of the technique is assigned through the setter of the new
    object and is not in the result.
\<close>

theorem decoded_technique_counterexample:
  "makeDecodedTechnique
     \<lparr>ownProperties = [(''name'', PValue (VStr ''fill'')), (''_index'', PValue (VNum (Finite 0)))],
      nullPrototype = True\<rparr>
     = (Inl (Error ''TypeError: technique.hasOwnProperty is not a function'')
        :: error + (unit, unit) technique) \<and>
   makeDecodedTechnique
     (plainObject [(''name'', PValue (VStr ''fill'')), (''hasOwnProperty'', PValue (VBool True))])
     = (Inl (Error ''TypeError: technique.hasOwnProperty is not a function'')
        :: error + (unit, unit) technique) \<and>
   makeDecodedTechnique
     (plainObject [(''name'', PValue (VStr ''fill'')), (''__proto__'', PValue (VStr ''line''))])
     = (Inr (plainObject [(''name'', PValue (VStr ''fill''))]) :: error + (unit, unit) technique)"
  by (simp add: makeDecodedTechnique_def hasOwnPropertyThrows_def plainObject_def
      assignProperty_def)

text \<open>
  \<^verbatim>\<open>createTechnique\<close> makes a technique without a prototype when it assigns \<^verbatim>\<open>null\<close> to
  \<^verbatim>\<open>__proto__\<close>, as for a technique attribute of this name whose expression evaluates to
  \<^verbatim>\<open>null\<close>.
\<close>

lemma createTechnique_without_prototype:
  "makeDecodedTechnique
     (fst (createTechnique (plainRule\<lparr>technique := Some ''fill''\<rparr>) noInternal
             [(''__proto__'', VNull)] []))
     = (Inl (Error ''TypeError: technique.hasOwnProperty is not a function'')
        :: error + (unit, unit) technique)"
  by (simp add: makeDecodedTechnique_def hasOwnPropertyThrows_def plainObject_def
      assignProperty_def createTechnique_def assignAll_def plainRule_def noInternal_def Let_def)

text \<open>
  Claim C9, amended: for a technique that has a prototype and no attribute named
  \<^verbatim>\<open>hasOwnProperty\<close> or \<^verbatim>\<open>__proto__\<close> of its own, \<^verbatim>\<open>makeDecodedTechnique\<close> returns a plain
  object with the own attributes of its input whose values are not \<^verbatim>\<open>Expr\<close> instances, each
  with its value, in their order, and nothing else. The attribute names of an object are
  distinct.
\<close>

theorem decoded_technique_drops_exprs:
  assumes "distinct (map fst (ownProperties tech))"
    and "\<not> nullPrototype tech"
    and "map_of (ownProperties tech) ''hasOwnProperty'' = None"
    and "map_of (ownProperties tech) ''__proto__'' = None"
  shows "makeDecodedTechnique tech
           = Inr (plainObject
                    (filter (\<lambda>(attrName, attrValue). \<not> isExpr attrValue) (ownProperties tech)))"
proof -
  from assms(4) have "''__proto__'' \<notin> fst ` set (ownProperties tech)"
    by (simp add: map_of_eq_None_iff)
  from decode_fold [of "[]" "ownProperties tech", OF _ this] assms(1-3) show ?thesis
    by (simp add: makeDecodedTechnique_def hasOwnPropertyThrows_def)
qed

theorem decoded_technique_drops_exprs_witness:
  "(let tech = plainObject
                 [(''name'', PValue (VStr ''solid-line'')), (''lineWidth'', PExpr (1::nat)),
                  (''color'', PInterp (2::nat)), (''_index'', PValue (VNum (Finite 0)))]
    in distinct (map fst (ownProperties tech)) \<and>
       \<not> nullPrototype tech \<and>
       map_of (ownProperties tech) ''hasOwnProperty'' = None \<and>
       map_of (ownProperties tech) ''__proto__'' = None \<and>
       makeDecodedTechnique tech
         = Inr (plainObject
                  [(''name'', PValue (VStr ''solid-line'')), (''color'', PInterp 2),
                   (''_index'', PValue (VNum (Finite 0)))]))"
  using decoded_technique_drops_exprs
    [of "plainObject
           [(''name'', PValue (VStr ''solid-line'')), (''lineWidth'', PExpr (1::nat)),
            (''color'', PInterp (2::nat)), (''_index'', PValue (VNum (Finite 0)))]"]
  by (simp add: plainObject_def)

text \<open>Every technique that \<^verbatim>\<open>createTechnique\<close> makes has distinct attribute names.\<close>

lemma assignProperty_distinct:
  "distinct (map fst (ownProperties obj)) \<Longrightarrow>
     distinct (map fst (ownProperties (assignProperty k v obj)))"
  by (simp add: assignProperty_def distinct_update)

lemma assignAll_distinct:
  "distinct (map fst (ownProperties obj)) \<Longrightarrow>
     distinct (map fst (ownProperties (assignAll kvs obj)))"
  unfolding assignAll_def
  by (induction kvs arbitrary: obj) (auto simp: assignProperty_distinct)

lemma createTechnique_distinct:
  "distinct (map fst (ownProperties (fst (createTechnique d n dyn techs))))"
  by (auto simp: createTechnique_def Let_def assignProperty_distinct assignAll_distinct
      plainObject_def split: option.splits)

section \<open>Technique indexes\<close>

lemmas walk_eval = Let_def
  getMatchingTechniques_def whenMatches_def compileWhen_def resolveTechnique_def
  checkStyleDynamicAttributes_def processAttributes_def processAttribute_def
  fixedAttributes_def hasOwnPropertyThrows_def plainObject_def
  evaluateTechniqueProperties_def createTechnique_def assignAll_def assignProperty_def
  makeCacheKey_def dynamicAttrKey_def showNumber_def techniqueIndex_def

lemma showNat_digit [simp]: "n < 10 \<Longrightarrow> showNat n = [char_of (48 + n)]"
  by (simp add: showNat.simps)

















section \<open>The order of attribute declarations\<close>

lemma staticOf_append [simp]: "staticOf (xs @ ys) = staticOf xs @ staticOf ys"
  by (simp add: staticOf_def)











lemma sameAttributes_refl: "sameAttributes n n"
  by (simp add: sameAttributes_def)

lemma sameAttributes_trans:
  "sameAttributes n1 n2 \<Longrightarrow> sameAttributes n2 n3 \<Longrightarrow> sameAttributes n1 n3"
  by (simp add: sameAttributes_def)

lemma whenMatches_sameAttributes:
  "whenMatches E env d n = (matched, n1, msgs) \<Longrightarrow> sameAttributes n n1"
  by (auto simp: whenMatches_def sameAttributes_def split: option.splits sum.splits)

lemma resolveTechnique_sameAttributes:
  "resolveTechnique E env styleStack d n \<sigma> = (r, n1, \<sigma>1) \<Longrightarrow>
     p_dynamicTechniqueAttributes n \<noteq> None \<Longrightarrow> sameAttributes n n1"
  by (auto simp: resolveTechnique_def checkStyleDynamicAttributes_def sameAttributes_def Let_def
      split: option.splits sum.splits prod.splits)

text \<open>
  A leaf rule that has collected its attributes keeps them through every later call of
  \<^verbatim>\<open>processStyle\<close>.
\<close>

lemma processStyle_sameAttributes:
  assumes "processStyle E env styleStack (Style d n None) \<sigma> = (r, s', \<sigma>')"
    and "p_dynamicTechniqueAttributes n \<noteq> None"
  shows "sameAttributes n (internal s')"
proof -
  obtain matched n1 msgs where w: "whenMatches E env d n = (matched, n1, msgs)"
    by (cases "whenMatches E env d n")
  note k = whenMatches_sameAttributes [OF w]
  from k assms(2) have set1: "p_dynamicTechniqueAttributes n1 \<noteq> None"
    by (simp add: sameAttributes_def)
  show ?thesis
  proof (cases "matched \<and> technique d \<noteq> None \<and> technique d \<noteq> Some ''none''")
    case True
    obtain r2 n2 \<sigma>2 where
      rt: "resolveTechnique E env styleStack d n1 (\<sigma>\<lparr>logs := logs \<sigma> @ msgs\<rparr>) = (r2, n2, \<sigma>2)"
      by (metis prod_cases3)
    from assms(1) w True rt have "internal s' = n2"
      by (auto simp: Let_def split: sum.splits)
    with sameAttributes_trans [OF k resolveTechnique_sameAttributes [OF rt set1]]
    show ?thesis by simp
  next
    case False
    with assms(1) w have "internal s' = n1"
      by (auto simp: Let_def split: option.splits if_splits)
    with k show ?thesis by simp
  qed
qed


text \<open>
  \<^verbatim>\<open>checkStyleDynamicAttributes\<close> is not called inside a \<^verbatim>\<open>try\<close>. When an attribute expression
  of the chain does not compile, the exception leaves \<^verbatim>\<open>getMatchingTechniques\<close> with the
  arrays of the rule as filled so far; the next call finds the arrays set, collects nothing
  more, and builds the technique from them. Here the expression of the parent fails before
  the value \<^verbatim>\<open>caps\<close> of the leaf is collected: the first call throws, and the technique of
  the second call has no \<^verbatim>\<open>caps\<close>.
\<close>

lemma leaf_static_value_after_exception:
  "(let ev = projr (StyleSetEvaluator brokenParentStyles);
        first = getMatchingTechniques getEngine ev Map.empty;
        second = getMatchingTechniques getEngine (snd first) Map.empty
    in fst first = Inl (Error ''ParseError'') \<and>
       map_sum id (map (\<lambda>tech. map_of (ownProperties tech) ''caps'')) (fst second)
         = Inr [None])"
  by (simp add: brokenParentStyles_def ctor_eval walk_eval getEngine_def)

text \<open>
  The names \<^verbatim>\<open>_index\<close> and \<^verbatim>\<open>_styleSetIndex\<close> are assigned by \<^verbatim>\<open>createTechnique\<close> after the
  attributes, and a value assigned to \<^verbatim>\<open>__proto__\<close> makes no attribute.
\<close>

lemma leaf_static_value_reserved_names:
  "map_sum id
     (map (\<lambda>tech. (map_of (ownProperties tech) ''__proto__'', map_of (ownProperties tech) ''_index'')))
     (fst (getMatchingTechniques getEngine (projr (StyleSetEvaluator reservedNameStyles)) Map.empty))
   = Inr [(None, Some (PValue (VNum (Finite 0))))]"
  by (simp add: reservedNameStyles_def ctor_eval walk_eval getEngine_def)




section \<open>The walk: early end and errors\<close>

lemma allStylesOf_append [simp]: "allStylesOf (xs @ ys) = allStylesOf xs @ allStylesOf ys"
  by (induction xs) simp_all

lemma processChildren_append:
  "processChildren E env styleStack pre \<sigma> = (Inr False, pre', \<sigma>1) \<Longrightarrow>
     processChildren E env styleStack (pre @ rest) \<sigma> =
       (case processChildren E env styleStack rest \<sigma>1 of
          (r, rest', \<sigma>2) \<Rightarrow> (r, pre' @ rest', \<sigma>2))"
proof (induction pre arbitrary: \<sigma> pre' \<sigma>1)
  case Nil
  then show ?case by (simp split: prod.splits)
next
  case (Cons s pre)
  obtain r1 s1 \<sigma>a where a: "processStyle E env styleStack s \<sigma> = (r1, s1, \<sigma>a)"
    by (metis prod_cases3)
  obtain r2 pre2 \<sigma>b where b: "processChildren E env styleStack pre \<sigma>a = (r2, pre2, \<sigma>b)"
    by (metis prod_cases3)
  from Cons.prems a b have r1: "r1 = Inr False" and r2: "r2 = Inr False"
    and p: "pre' = s1 # pre2" and s: "\<sigma>1 = \<sigma>b"
    by (auto split: sum.splits bool.splits)
  from Cons.IH [OF b [unfolded r2]] a r1 p s show ?case
    by (simp split: prod.splits)
qed

lemma processChildren_stop:
  "processStyle E env styleStack s \<sigma> = (r, s', \<sigma>') \<Longrightarrow> r \<noteq> Inr False \<Longrightarrow>
     processChildren E env styleStack (s # post) \<sigma> = (r, s' # post, \<sigma>')"
  by (auto split: sum.splits bool.splits)

lemma matchStyleSet_processChildren:
  "matchStyleSet E env [] ss \<sigma> = processChildren E env [] ss \<sigma>"
  by (induction ss arbitrary: \<sigma>) (auto split: prod.splits sum.splits bool.splits)

lemma reaches_outcome:
  assumes "reaches E env start target following"
  shows "\<And>styleStack ss \<sigma> styleStack' s \<sigma>1 r s' \<sigma>2.
     start = (styleStack, ss, \<sigma>) \<Longrightarrow> target = (styleStack', s, \<sigma>1) \<Longrightarrow>
     processStyle E env styleStack' s \<sigma>1 = (r, s', \<sigma>2) \<Longrightarrow> r \<noteq> Inr False \<Longrightarrow>
     \<exists>ss' before. processChildren E env styleStack ss \<sigma> = (r, ss', \<sigma>2) \<and>
        allStylesOf ss' = before @ allStyles s' @ following"
  using assms
proof (induction rule: reaches.induct)
  case (reaches_here styleStack0 pre \<sigma>0 pre' \<sigma>a s0 post)
  from reaches_here.prems have eq: "styleStack = styleStack0" "ss = pre @ s0 # post" "\<sigma> = \<sigma>0"
    "styleStack' = styleStack0" "s = s0" "\<sigma>1 = \<sigma>a" by simp_all
  from reaches_here.prems(3,4) eq
  have "processChildren E env styleStack0 (s0 # post) \<sigma>a = (r, s' # post, \<sigma>2)"
    by (intro processChildren_stop) simp_all
  with processChildren_append [OF reaches_here.hyps, of "s0 # post"]
  have "processChildren E env styleStack0 (pre @ s0 # post) \<sigma>0 = (r, pre' @ s' # post, \<sigma>2)"
    by simp
  moreover have "allStylesOf (pre' @ s' # post) = allStylesOf pre' @ allStyles s' @ allStylesOf post"
    by simp
  ultimately show ?case using eq by blast
next
  case (reaches_child styleStack0 pre \<sigma>0 pre' \<sigma>a d n n1 msgs cs target following post)
  from reaches_child.prems have eq: "styleStack = styleStack0"
    "ss = pre @ Style d n (Some cs) # post" "\<sigma> = \<sigma>0" by simp_all
  from reaches_child.IH [OF refl reaches_child.prems(2,3,4)]
  obtain cs' before where
    c: "processChildren E env (styleStack0 @ [d]) cs (\<sigma>a\<lparr>logs := logs \<sigma>a @ msgs\<rparr>) = (r, cs', \<sigma>2)"
    and f: "allStylesOf cs' = before @ allStyles s' @ following" by blast
  from c reaches_child.hyps(2)
  have "processStyle E env styleStack0 (Style d n (Some cs)) \<sigma>a = (r, Style d n1 (Some cs'), \<sigma>2)"
    by simp
  from processChildren_stop [OF this reaches_child.prems(4)]
    processChildren_append [OF reaches_child.hyps(1), of "Style d n (Some cs) # post"]
  have "processChildren E env styleStack0 (pre @ Style d n (Some cs) # post) \<sigma>0
      = (r, pre' @ Style d n1 (Some cs') # post, \<sigma>2)" by simp
  moreover have "allStylesOf (pre' @ Style d n1 (Some cs') # post)
      = (allStylesOf pre' @ Style d n1 (Some cs') # before) @ allStyles s' @ (following @ allStylesOf post)"
    using f by simp
  ultimately show ?case using eq by blast
qed

lemma whenMatches_True_msgs: "whenMatches E env d n = (True, n1, msgs) \<Longrightarrow> msgs = []"
  by (auto simp: whenMatches_def split: option.splits sum.splits)

lemma getMatchingTechniques_outcome:
  assumes "processChildren E env [] (styleSet ev) (startPass ev) = (r, ss', \<sigma>2)"
  shows "getMatchingTechniques E ev env =
           ((case r of Inl e \<Rightarrow> Inl e | Inr b \<Rightarrow> Inr (result \<sigma>2)),
            ev\<lparr>styleSet := ss', m_techniques := techniques \<sigma>2, logged := logs \<sigma>2\<rparr>)"
  using assms
  by (simp add: getMatchingTechniques_def matchStyleSet_processChildren startPass_def)

text \<open>
  Claim C7: when the walk has arrived at a leaf rule whose condition matches, the rule has
  technique attributes given by expressions, and evaluating them throws, the exception leaves
  \<^verbatim>\<open>getMatchingTechniques\<close>.
\<close>

theorem attribute_error_propagates:
  assumes reach: "reaches E env ([], styleSet ev, startPass ev) (styleStack, Style d n None, \<sigma>) following"
    and matched: "whenMatches E env d n = (True, n1, msgs)"
    and tech: "technique d = Some t" "t \<noteq> ''none''"
    and check: "checkStyleDynamicAttributes E d styleStack n1 = (None, n2)"
    and dynamic: "p_dynamicTechniques n2 \<noteq> None"
    and throws: "evaluateTechniqueProperties E n2 env = Inl e"
  shows "fst (getMatchingTechniques E ev env) = Inl e"
proof -
  from matched have msgs: "msgs = []" by (rule whenMatches_True_msgs)
  from check dynamic throws
  have "resolveTechnique E env styleStack d n1 \<sigma> = (Inl e, n2, \<sigma>)"
    by (auto simp: resolveTechnique_def)
  with matched tech msgs
  have p: "processStyle E env styleStack (Style d n None) \<sigma> = (Inl e, Style d n2 None, \<sigma>)"
    by simp
  from reaches_outcome [OF reach refl refl p]
  obtain ss' where "processChildren E env [] (styleSet ev) (startPass ev) = (Inl e, ss', \<sigma>)"
    by auto
  from getMatchingTechniques_outcome [OF this] show ?thesis by simp
qed

theorem attribute_error_propagates_witness:
  "(let ev = throwingEvaluator;
        leaf = styleSet ev ! 0;
        n2 = snd (checkStyleDynamicAttributes getEngine (decl leaf) [] (internal leaf))
    in reaches getEngine redRoad ([], styleSet ev, startPass ev)
         ([], Style (decl leaf) (internal leaf) None, startPass ev) [styleSet ev ! 1] \<and>
       whenMatches getEngine redRoad (decl leaf) (internal leaf) = (True, internal leaf, []) \<and>
       technique (decl leaf) = Some ''solid-line'' \<and>
       checkStyleDynamicAttributes getEngine (decl leaf) [] (internal leaf) = (None, n2) \<and>
       p_dynamicTechniques n2 \<noteq> None \<and>
       evaluateTechniqueProperties getEngine n2 redRoad = Inl (Error ''EvaluationError'') \<and>
       fst (getMatchingTechniques getEngine ev redRoad) = Inl (Error ''EvaluationError''))"
proof -
  define ev where "ev = throwingEvaluator"
  define leaf where "leaf = styleSet ev ! 0"
  define n2 where "n2 = snd (checkStyleDynamicAttributes getEngine (decl leaf) [] (internal leaf))"
  note defs = ev_def leaf_def n2_def throwingEvaluator_def throwingStyles_def
    startPass_def getEngine_def redRoad_def ctor_eval walk_eval
  have shape: "styleSet ev = [] @ Style (decl leaf) (internal leaf) None # [styleSet ev ! 1]"
    by (simp add: defs)
  have "reaches getEngine redRoad
      ([], [] @ Style (decl leaf) (internal leaf) None # [styleSet ev ! 1], startPass ev)
      ([], Style (decl leaf) (internal leaf) None, startPass ev) (allStylesOf [styleSet ev ! 1])"
    by (rule reaches_here [where pre' = "[]"]) simp
  moreover have "allStylesOf [styleSet ev ! 1] = [styleSet ev ! 1]" by (simp add: defs)
  ultimately have 1: "reaches getEngine redRoad ([], styleSet ev, startPass ev)
         ([], Style (decl leaf) (internal leaf) None, startPass ev) [styleSet ev ! 1]"
    using shape by simp
  have 2: "whenMatches getEngine redRoad (decl leaf) (internal leaf) = (True, internal leaf, [])"
    by (simp add: defs)
  have 3: "technique (decl leaf) = Some ''solid-line''" by (simp add: defs)
  have 4: "''solid-line'' \<noteq> ''none''" by simp
  have 5: "checkStyleDynamicAttributes getEngine (decl leaf) [] (internal leaf) = (None, n2)"
    by (simp add: defs)
  have 6: "p_dynamicTechniques n2 \<noteq> None" by (simp add: defs)
  have 7: "evaluateTechniqueProperties getEngine n2 redRoad = Inl (Error ''EvaluationError'')"
    by (simp add: defs)
  from attribute_error_propagates [OF 1 2 3 4 5 6 7] 1 2 3 5 6 7 show ?thesis
    unfolding Let_def ev_def [symmetric] leaf_def [symmetric] n2_def [symmetric]
    by simp
qed

text \<open>
  Claim C4 says that a matching rule with \<^verbatim>\<open>final: true\<close> keeps every rule after it from being
  evaluated. \<^verbatim>\<open>processStyle\<close> reads \<^verbatim>\<open>final\<close> in its last line only, which a rule with
  nested \<^verbatim>\<open>styles\<close> never gets to: such a rule ends the walk when one of its children does.
  Here the first rule has \<^verbatim>\<open>final: true\<close> and one child, and the rule after it is evaluated:
  its technique is in the result.
\<close>

theorem final_on_container_counterexample:
  "map_sum id (map (\<lambda>tech. map_of (ownProperties tech) ''name''))
     (fst (getMatchingTechniques getEngine
        (projr (StyleSetEvaluator
           [Declaration (plainRule\<lparr>final := Some True\<rparr>)
              (Some [Declaration (plainRule\<lparr>technique := Some ''fill''\<rparr>) None]),
            Declaration (plainRule\<lparr>technique := Some ''line''\<rparr>) None]))
        Map.empty))
   = Inr [Some (PValue (VStr ''fill'')), Some (PValue (VStr ''line''))]"
  by (simp add: ctor_eval walk_eval getEngine_def)

text \<open>A leaf rule without a technique returns before that line as well (line 261).\<close>

lemma final_without_technique_ignored:
  "map_sum id (map (\<lambda>tech. map_of (ownProperties tech) ''name''))
     (fst (getMatchingTechniques getEngine
        (projr (StyleSetEvaluator
           [Declaration (plainRule\<lparr>final := Some True\<rparr>) None,
            Declaration (plainRule\<lparr>technique := Some ''line''\<rparr>) None]))
        Map.empty))
   = Inr [Some (PValue (VStr ''line''))]"
  by (simp add: ctor_eval walk_eval getEngine_def)

text \<open>
  Claim C4, amended: when the walk has arrived at a leaf rule with a technique whose
  condition matches and which carries \<^verbatim>\<open>final: true\<close>, and \<^verbatim>\<open>processStyle\<close> returns from it,
  then \<^verbatim>\<open>getMatchingTechniques\<close> returns the result as it is right after this rule, with
  \<^verbatim>\<open>m_techniques\<close> and the log as they are then, and the rules after it in pre-order
  (siblings at any level and later top-level rules) are as they were before the call.
\<close>

theorem final_leaf_stops_walk:
  assumes reach: "reaches E env ([], styleSet ev, startPass ev) (styleStack, Style d n None, \<sigma>) following"
    and matched: "whenMatches E env d n = (True, n1, msgs)"
    and tech: "technique d = Some t"
    and final: "final d = Some True"
    and returns: "processStyle E env styleStack (Style d n None) \<sigma> = (Inr b, s', \<sigma>2)"
  shows "\<exists>ss' before.
           getMatchingTechniques E ev env =
             (Inr (result \<sigma>2), ev\<lparr>styleSet := ss', m_techniques := techniques \<sigma>2, logged := logs \<sigma>2\<rparr>) \<and>
           allStylesOf ss' = before @ s' # following"
proof -
  from returns matched tech final have b: "b = True"
    by (auto simp: Let_def split: if_splits prod.splits sum.splits)
  from returns matched tech have leaf: "allStyles s' = [s']"
    by (auto simp: Let_def split: if_splits prod.splits sum.splits)
  from reaches_outcome [OF reach refl refl returns] b leaf
  obtain ss' before where
    c: "processChildren E env [] (styleSet ev) (startPass ev) = (Inr True, ss', \<sigma>2)"
    and f: "allStylesOf ss' = before @ s' # following" by auto
  from getMatchingTechniques_outcome [OF c] f show ?thesis by auto
qed

theorem final_leaf_stops_walk_witness:
  "(let ev = finalEvaluator;
        container = styleSet ev ! 0;
        kids = the (styles container);
        leaf = kids ! 0;
        out = processStyle getEngine redRoad [decl container] leaf (startPass ev)
    in reaches getEngine redRoad ([], styleSet ev, startPass ev)
         ([decl container], Style (decl leaf) (internal leaf) None, startPass ev)
         [kids ! 1, styleSet ev ! 1] \<and>
       whenMatches getEngine redRoad (decl leaf) (internal leaf) = (True, internal leaf, []) \<and>
       technique (decl leaf) = Some ''solid-line'' \<and>
       final (decl leaf) = Some True \<and>
       fst out = Inr True \<and>
       map (\<lambda>tech. map_of (ownProperties tech) ''name'') (result (snd (snd out)))
         = [Some (PValue (VStr ''solid-line''))] \<and>
       (\<exists>ss' before.
           getMatchingTechniques getEngine ev redRoad =
             (Inr (result (snd (snd out))),
              ev\<lparr>styleSet := ss', m_techniques := techniques (snd (snd out)),
                 logged := logs (snd (snd out))\<rparr>) \<and>
           allStylesOf ss' = before @ fst (snd out) # [kids ! 1, styleSet ev ! 1]))"
proof -
  define ev where "ev = finalEvaluator"
  define container where "container = styleSet ev ! 0"
  define kids where "kids = the (styles container)"
  define leaf where "leaf = kids ! 0"
  define out where "out = processStyle getEngine redRoad [decl container] leaf (startPass ev)"
  note defs = ev_def container_def kids_def leaf_def out_def finalEvaluator_def finalStyles_def
    startPass_def getEngine_def redRoad_def ctor_eval walk_eval
  have shape: "styleSet ev = [] @ Style (decl container) (internal container) (Some kids) # [styleSet ev ! 1]"
    "kids = [] @ Style (decl leaf) (internal leaf) None # [kids ! 1]"
    by (simp_all add: defs)
  have w0: "whenMatches getEngine redRoad (decl container) (internal container)
      = (True, internal container\<lparr>p_whenExpr := Some ''isRoad''\<rparr>, [])"
    by (simp add: defs)
  have inner: "reaches getEngine redRoad
      ([] @ [decl container], [] @ Style (decl leaf) (internal leaf) None # [kids ! 1],
       (startPass ev)\<lparr>logs := logs (startPass ev) @ []\<rparr>)
      ([] @ [decl container], Style (decl leaf) (internal leaf) None,
       (startPass ev)\<lparr>logs := logs (startPass ev) @ []\<rparr>)
      (allStylesOf [kids ! 1])"
    by (rule reaches_here [where pre' = "[]"]) simp
  have "reaches getEngine redRoad
      ([], [] @ Style (decl container) (internal container) (Some kids) # [styleSet ev ! 1], startPass ev)
      ([] @ [decl container], Style (decl leaf) (internal leaf) None,
       (startPass ev)\<lparr>logs := logs (startPass ev) @ []\<rparr>)
      (allStylesOf [kids ! 1] @ allStylesOf [styleSet ev ! 1])"
    by (rule reaches_child [where pre' = "[]", OF _ w0]) (use inner shape(2) in simp_all)
  moreover have "allStylesOf [kids ! 1] @ allStylesOf [styleSet ev ! 1] = [kids ! 1, styleSet ev ! 1]"
    by (simp add: defs)
  ultimately have 1: "reaches getEngine redRoad ([], styleSet ev, startPass ev)
         ([decl container], Style (decl leaf) (internal leaf) None, startPass ev)
         [kids ! 1, styleSet ev ! 1]"
    using shape(1) by simp
  have 2: "whenMatches getEngine redRoad (decl leaf) (internal leaf) = (True, internal leaf, [])"
    by (simp add: defs)
  have 3: "technique (decl leaf) = Some ''solid-line''" by (simp add: defs)
  have 4: "final (decl leaf) = Some True" by (simp add: defs)
  have 5: "processStyle getEngine redRoad [decl container] (Style (decl leaf) (internal leaf) None)
      (startPass ev) = (Inr True, fst (snd out), snd (snd out))"
    by (simp add: defs)
  have 6: "map (\<lambda>tech. map_of (ownProperties tech) ''name'') (result (snd (snd out)))
         = [Some (PValue (VStr ''solid-line''))]"
    by (simp add: defs)
  have 7: "fst out = Inr True" by (simp add: defs)
  from final_leaf_stops_walk [OF 1 2 3 4 5] 1 2 3 4 6 7 show ?thesis
    unfolding Let_def ev_def [symmetric] container_def [symmetric] kids_def [symmetric]
      leaf_def [symmetric] out_def [symmetric]
    by (simp del: processStyle.simps)
qed

text \<open>
  Claim C6: when compiling or evaluating the condition of a rule throws, \<^verbatim>\<open>processStyle\<close>
  returns \<^verbatim>\<open>false\<close> for the rule, with one message logged and nothing else changed in the
  state of the pass, and both loops go on with the next rule: the exception does not leave
  \<^verbatim>\<open>processStyle\<close>.
\<close>

theorem when_error_skips_rule:
  assumes w: "when' d = Some w"
    and throws: "compileWhen E w n = Inl e \<or>
                 (\<exists>x. compileWhen E w n = Inr x \<and> Expr_evaluate E x env = Inl e)"
  shows "\<exists>n'. processStyle E env styleStack (Style d n kids) \<sigma>
                 = (Inr False, Style d n' kids, \<sigma>\<lparr>logs := logs \<sigma> @ [LogWhenFailed w e]\<rparr>) \<and>
               processChildren E env styleStack (Style d n kids # rest) \<sigma>
                 = (case processChildren E env styleStack rest
                           (\<sigma>\<lparr>logs := logs \<sigma> @ [LogWhenFailed w e]\<rparr>) of
                      (r, rest', \<sigma>2) \<Rightarrow> (r, Style d n' kids # rest', \<sigma>2)) \<and>
               matchStyleSet E env [] (Style d n kids # rest) \<sigma>
                 = (case matchStyleSet E env [] rest
                           (\<sigma>\<lparr>logs := logs \<sigma> @ [LogWhenFailed w e]\<rparr>) of
                      (r, rest', \<sigma>2) \<Rightarrow> (r, Style d n' kids # rest', \<sigma>2))"
proof -
  from w throws obtain n' where "whenMatches E env d n = (False, n', [LogWhenFailed w e])"
    by (auto simp: whenMatches_def)
  then have "processStyle E env styleStack (Style d n kids) \<sigma>
      = (Inr False, Style d n' kids, \<sigma>\<lparr>logs := logs \<sigma> @ [LogWhenFailed w e]\<rparr>)"
    for styleStack by simp
  then show ?thesis by (intro exI [of _ n']) simp
qed

theorem when_error_skips_rule_witness:
  "when' brokenWhen = Some (WhenJson ''!'') \<and>
   (compileWhen getEngine (WhenJson ''!'') noInternal = Inl (Error ''EvaluationError'') \<or>
    compileWhen getEngine (WhenJson ''!'') noInternal = Inr ''!'' \<and>
    Expr_evaluate getEngine ''!'' redRoad = Inl (Error ''EvaluationError'')) \<and>
   (\<exists>n'. processStyle getEngine redRoad [] (Style brokenWhen noInternal None)
              \<lparr>result = [], techniques = [], logs = []\<rparr>
            = (Inr False, Style brokenWhen n' None,
               \<lparr>result = [], techniques = [],
                logs = [LogWhenFailed (WhenJson ''!'') (Error ''EvaluationError'')]\<rparr>) \<and>
          fst (processChildren getEngine redRoad []
                 [Style brokenWhen noInternal None, Style (plainRule\<lparr>technique := Some ''fill''\<rparr>) noInternal None]
                 \<lparr>result = [], techniques = [], logs = []\<rparr>) = Inr False)"
proof -
  have 1: "when' brokenWhen = Some (WhenJson ''!'')" by (simp add: brokenWhen_def plainRule_def)
  have 2: "compileWhen getEngine (WhenJson ''!'') noInternal = Inr ''!'' \<and>
      Expr_evaluate getEngine ''!'' redRoad = Inl (Error ''EvaluationError'')"
    by (simp add: compileWhen_def getEngine_def noInternal_def)
  then have 3: "compileWhen getEngine (WhenJson ''!'') noInternal = Inl (Error ''EvaluationError'') \<or>
      (\<exists>x. compileWhen getEngine (WhenJson ''!'') noInternal = Inr x \<and>
        Expr_evaluate getEngine x redRoad = Inl (Error ''EvaluationError''))" by blast
  from when_error_skips_rule [OF 1 3, of "[]" None "\<lparr>result = [], techniques = [], logs = []\<rparr>"
      "[Style (plainRule\<lparr>technique := Some ''fill''\<rparr>) noInternal None]"]
  obtain n' where p: "processStyle getEngine redRoad [] (Style brokenWhen noInternal None)
              \<lparr>result = [], techniques = [], logs = []\<rparr>
            = (Inr False, Style brokenWhen n' None,
               \<lparr>result = [], techniques = [],
                logs = [LogWhenFailed (WhenJson ''!'') (Error ''EvaluationError'')]\<rparr>)"
    and c: "processChildren getEngine redRoad []
        [Style brokenWhen noInternal None, Style (plainRule\<lparr>technique := Some ''fill''\<rparr>) noInternal None]
        \<lparr>result = [], techniques = [], logs = []\<rparr>
      = (case processChildren getEngine redRoad []
              [Style (plainRule\<lparr>technique := Some ''fill''\<rparr>) noInternal None]
              \<lparr>result = [], techniques = [],
               logs = [LogWhenFailed (WhenJson ''!'') (Error ''EvaluationError'')]\<rparr> of
           (r, rest', \<sigma>2) \<Rightarrow> (r, Style brokenWhen n' None # rest', \<sigma>2))"
    by auto
  have "fst (processChildren getEngine redRoad []
              [Style (plainRule\<lparr>technique := Some ''fill''\<rparr>) noInternal None]
              \<lparr>result = [], techniques = [],
               logs = [LogWhenFailed (WhenJson ''!'') (Error ''EvaluationError'')]\<rparr>) = Inr False"
    by (simp add: walk_eval plainRule_def noInternal_def Let_def)
  with c have "fst (processChildren getEngine redRoad []
        [Style brokenWhen noInternal None, Style (plainRule\<lparr>technique := Some ''fill''\<rparr>) noInternal None]
        \<lparr>result = [], techniques = [], logs = []\<rparr>) = Inr False"
    by (simp only: split: prod.splits) auto
  with 1 2 p show ?thesis by blast
qed

section \<open>Cached techniques\<close>

lemma check_noop:
  "p_dynamicTechniqueAttributes n \<noteq> None \<or> technique d = Some ''none'' \<Longrightarrow>
     checkStyleDynamicAttributes E d styleStack n = (None, n)"
  by (auto simp: checkStyleDynamicAttributes_def)

lemma check_done:
  "checkStyleDynamicAttributes E d styleStack n = (r, n1) \<Longrightarrow>
     p_dynamicTechniqueAttributes n1 \<noteq> None \<or> technique d = Some ''none''"
  by (auto simp: checkStyleDynamicAttributes_def split: if_splits prod.splits)

lemma evaluateTechniqueProperties_cong:
  "p_dynamicTechniqueAttributes n = p_dynamicTechniqueAttributes n' \<Longrightarrow>
     evaluateTechniqueProperties E n env = evaluateTechniqueProperties E n' env"
  by (simp add: evaluateTechniqueProperties_def)

lemma resolveTechnique_again:
  assumes first: "resolveTechnique E env1 styleStack d n \<sigma> = (Inr (), n', \<sigma>')"
    and same: "evaluateTechniqueProperties E n' env2 = evaluateTechniqueProperties E n' env1"
  shows "\<exists>t. \<sigma>' = \<sigma>\<lparr>result := result \<sigma> @ [t], techniques := techniques \<sigma>'\<rparr> \<and>
           (\<forall>styleStack' \<tau>. resolveTechnique E env2 styleStack' d n' \<tau>
               = (Inr (), n', \<tau>\<lparr>result := result \<tau> @ [t]\<rparr>))"
proof -
  obtain r n1 where c: "checkStyleDynamicAttributes E d styleStack n = (r, n1)"
    by (cases "checkStyleDynamicAttributes E d styleStack n")
  with first have r: "r = None" by (auto simp: resolveTechnique_def split: option.splits)
  note chk = check_done [OF c]
  show ?thesis
  proof (cases "p_dynamicTechniques n1")
    case None
    show ?thesis
    proof (cases "p_staticTechnique n1")
      case (Some t)
      with first c r None have n': "n' = n1" and s: "\<sigma>' = \<sigma>\<lparr>result := result \<sigma> @ [t]\<rparr>"
        by (auto simp: resolveTechnique_def)
      have "resolveTechnique E env2 styleStack' d n1 \<tau> = (Inr (), n1, \<tau>\<lparr>result := result \<tau> @ [t]\<rparr>)"
        for styleStack' \<tau>
        using check_noop [OF chk] None Some by (simp add: resolveTechnique_def)
      with n' s show ?thesis by (intro exI [of _ t]) simp
    next
      case nt: None
      obtain t techs where ct: "createTechnique d n1 [] (techniques \<sigma>) = (t, techs)"
        by (cases "createTechnique d n1 [] (techniques \<sigma>)")
      with first c r None nt have n': "n' = n1\<lparr>p_staticTechnique := Some t\<rparr>"
        and s: "\<sigma>' = \<sigma>\<lparr>result := result \<sigma> @ [t], techniques := techs\<rparr>"
        by (auto simp: resolveTechnique_def)
      from chk have "p_dynamicTechniqueAttributes n' \<noteq> None \<or> technique d = Some ''none''"
        by (simp add: n')
      from check_noop [OF this]
      have "resolveTechnique E env2 styleStack' d n' \<tau> = (Inr (), n', \<tau>\<lparr>result := result \<tau> @ [t]\<rparr>)"
        for styleStack' \<tau>
        using None by (simp add: resolveTechnique_def n')
      with s show ?thesis by (intro exI [of _ t]) simp
    qed
  next
    case (Some cache)
    obtain dyn where ev1: "evaluateTechniqueProperties E n1 env1 = Inr dyn"
      using first c r Some by (auto simp: resolveTechnique_def split: sum.splits)
    define key where "key = makeCacheKey E (p_styleSetIndex n1) (dynamicAttrKey E dyn)"
    show ?thesis
    proof (cases "map_of cache key")
      case hit: (Some t)
      with first c r Some ev1 have n': "n' = n1" and s: "\<sigma>' = \<sigma>\<lparr>result := result \<sigma> @ [t]\<rparr>"
        by (auto simp: resolveTechnique_def key_def Let_def)
      from same n' ev1 have "evaluateTechniqueProperties E n1 env2 = Inr dyn" by simp
      with check_noop [OF chk] Some hit
      have "resolveTechnique E env2 styleStack' d n1 \<tau> = (Inr (), n1, \<tau>\<lparr>result := result \<tau> @ [t]\<rparr>)"
        for styleStack' \<tau>
        by (simp add: resolveTechnique_def key_def Let_def)
      with n' s show ?thesis by (intro exI [of _ t]) simp
    next
      case miss: None
      obtain t techs where ct: "createTechnique d n1 dyn (techniques \<sigma>) = (t, techs)"
        by (cases "createTechnique d n1 dyn (techniques \<sigma>)")
      with first c r Some ev1 miss
      have n': "n' = n1\<lparr>p_dynamicTechniques := Some (AList.update key t cache)\<rparr>"
        and s: "\<sigma>' = \<sigma>\<lparr>result := result \<sigma> @ [t], techniques := techs\<rparr>"
        by (auto simp: resolveTechnique_def key_def Let_def)
      from chk have d': "p_dynamicTechniqueAttributes n' \<noteq> None \<or> technique d = Some ''none''"
        by (simp add: n')
      have "evaluateTechniqueProperties E n' env1 = Inr dyn"
        using ev1 evaluateTechniqueProperties_cong [of n' n1 E env1] by (simp add: n')
      with same have "evaluateTechniqueProperties E n' env2 = Inr dyn" by simp
      with check_noop [OF d']
      have "resolveTechnique E env2 styleStack' d n' \<tau> = (Inr (), n', \<tau>\<lparr>result := result \<tau> @ [t]\<rparr>)"
        for styleStack' \<tau>
        by (simp add: resolveTechnique_def Let_def n' key_def [symmetric] update_conv')
      with s show ?thesis by (intro exI [of _ t]) simp
    qed
  qed
qed

lemma resolveTechnique_whenExpr:
  "resolveTechnique E env styleStack d n \<sigma> = (r, n', \<sigma>') \<Longrightarrow> p_whenExpr n' = p_whenExpr n"
  by (auto simp: resolveTechnique_def checkStyleDynamicAttributes_def Let_def
      split: prod.splits option.splits sum.splits if_splits)



lemma whenMatches_again:
  "whenMatches E env d n = (m, n1, msgs) \<Longrightarrow> whenMatches E env d n1 = (m, n1, msgs)"
  by (auto simp: whenMatches_def compileWhen_def split: option.splits sum.splits)


subsection \<open>What is collected for the cache key\<close>

lemma techniqueScopeExprs_append [simp]:
  "techniqueScopeExprs E t (xs @ ys) = techniqueScopeExprs E t xs @ techniqueScopeExprs E t ys"
  by (simp add: techniqueScopeExprs_def)

lemma techniqueScopeExprs_Cons:
  "techniqueScopeExprs E t (a # as) = techniqueScopeExprs E t [a] @ techniqueScopeExprs E t as"
  by (simp add: techniqueScopeExprs_def)

text \<open>
  \<^verbatim>\<open>processAttribute\<close> pushes into \<^verbatim>\<open>dynamicTechniqueAttributes\<close> exactly the expressions
  declared for attributes of technique scope: an expression for an attribute of feature
  scope goes to \<^verbatim>\<open>dynamicFeatureAttributes\<close> and is not among them.
\<close>

lemma processAttribute_technique:
  "processAttribute E t a L = Inr L1 \<Longrightarrow>
     dynamicTechniqueAttributes L1 = dynamicTechniqueAttributes L @ techniqueScopeExprs E t [a]"
  by (auto simp: processAttribute_def techniqueScopeExprs_def
      split: prod.splits attrValue.splits sum.splits option.splits TechniqueAttrType.splits
        if_splits)

lemma processAttribute_feature:
  "processAttribute E t (attrName, JsonExprValue j) L = Inr L1 \<Longrightarrow>
     techniqueAttrType E t attrName = Feature \<Longrightarrow>
     dynamicTechniqueAttributes L1 = dynamicTechniqueAttributes L \<and>
     (\<exists>expr. Expr_fromJSON E j = Inr expr \<and>
        dynamicFeatureAttributes L1 = dynamicFeatureAttributes L @ [(attrName, PExpr expr)])"
  by (auto simp: processAttribute_def split: sum.splits)

lemma processAttributeRun_technique:
  "processAttributeRun E t decls L = (None, L1) \<Longrightarrow>
     dynamicTechniqueAttributes L1 = dynamicTechniqueAttributes L @ techniqueScopeExprs E t decls"
proof (induction decls arbitrary: L)
  case Nil
  then show ?case by (simp add: techniqueScopeExprs_def)
next
  case (Cons a decls)
  from Cons.prems obtain L2 where a: "processAttribute E t a L = Inr L2"
    and r: "processAttributeRun E t decls L2 = (None, L1)"
    by (auto split: sum.splits)
  from Cons.IH [OF r] processAttribute_technique [OF a] show ?case
    by (simp add: techniqueScopeExprs_Cons [of E t a decls])
qed

lemma processAttributeRun_scoped:
  "processAttributeRun E t decls L = (err, L1) \<Longrightarrow>
     set (dynamicTechniqueAttributes L1)
       \<subseteq> set (dynamicTechniqueAttributes L) \<union> set (techniqueScopeExprs E t decls)"
proof (induction decls arbitrary: L)
  case Nil
  then show ?case by simp
next
  case (Cons a decls)
  show ?case
  proof (cases "processAttribute E t a L")
    case (Inl e)
    with Cons.prems show ?thesis by simp
  next
    case (Inr L2)
    with Cons.prems have r: "processAttributeRun E t decls L2 = (err, L1)" by simp
    from Cons.IH [OF r] processAttribute_technique [OF Inr] show ?thesis
      by (auto simp: techniqueScopeExprs_Cons [of E t a decls])
  qed
qed

lemma processAttributes_scoped:
  assumes "processAttributes E t style2 L = (err, L1)"
  shows "set (dynamicTechniqueAttributes L1)
           \<subseteq> set (dynamicTechniqueAttributes L)
             \<union> set (techniqueScopeExprs E t (attributeDeclarations style2))"
proof -
  obtain e2 L2 where fixed: "processAttributeRun E t (fixedAttributes style2) L = (e2, L2)"
    by (cases "processAttributeRun E t (fixedAttributes style2) L")
  note f = processAttributeRun_scoped [OF fixed]
  show ?thesis
  proof (cases "e2 = None \<and> attr style2 \<noteq> None \<and> ownProperties (the (attr style2)) \<noteq> []
      \<and> \<not> hasOwnPropertyThrows (the (attr style2))")
    case True
    then obtain obj where obj: "attr style2 = Some obj" by auto
    with assms fixed True have "processAttributeRun E t (ownProperties obj) L2 = (err, L1)"
      by (simp add: processAttributes_def)
    from processAttributeRun_scoped [OF this] f obj show ?thesis
      by (auto simp: attributeDeclarations_def)
  next
    case False
    with assms fixed have "L1 = L2"
      by (auto simp: processAttributes_def split: option.splits if_splits)
    with f show ?thesis by (auto simp: attributeDeclarations_def)
  qed
qed

lemma processAttributes_technique:
  assumes "processAttributes E t style2 L = (None, L1)"
  shows "dynamicTechniqueAttributes L1
           = dynamicTechniqueAttributes L @ techniqueScopeExprs E t (attributeDeclarations style2)"
proof -
  from assms obtain L2 where
    fixed: "processAttributeRun E t (fixedAttributes style2) L = (None, L2)"
    by (auto simp: processAttributes_def split: prod.splits option.splits)
  note f = processAttributeRun_technique [OF fixed]
  show ?thesis
  proof (cases "attr style2")
    case None
    with assms fixed f show ?thesis
      by (simp add: processAttributes_def attributeDeclarations_def)
  next
    case (Some obj)
    show ?thesis
    proof (cases "ownProperties obj = []")
      case True
      with assms fixed f Some show ?thesis
        by (simp add: processAttributes_def attributeDeclarations_def techniqueScopeExprs_def)
    next
      case False
      with assms fixed Some have "processAttributeRun E t (ownProperties obj) L2 = (None, L1)"
        by (simp add: processAttributes_def split: if_splits)
      from processAttributeRun_technique [OF this] f Some show ?thesis
        by (simp add: attributeDeclarations_def)
    qed
  qed
qed

lemma processAttributesOfAll_scoped:
  "processAttributesOfAll E t rules L = (err, L1) \<Longrightarrow>
     set (dynamicTechniqueAttributes L1)
       \<subseteq> set (dynamicTechniqueAttributes L)
         \<union> set (techniqueScopeExprs E t (concat (map attributeDeclarations rules)))"
proof (induction rules arbitrary: L)
  case Nil
  then show ?case by simp
next
  case (Cons style2 rules)
  obtain e2 L2 where a: "processAttributes E t style2 L = (e2, L2)"
    by (cases "processAttributes E t style2 L")
  note h = processAttributes_scoped [OF a]
  show ?case
  proof (cases e2)
    case None
    with Cons.prems a have r: "processAttributesOfAll E t rules L2 = (err, L1)" by simp
    from Cons.IH [OF r] h show ?thesis by auto
  next
    case (Some e)
    with Cons.prems a have "L1 = L2" by simp
    with h show ?thesis by auto
  qed
qed

lemma processAttributesOfAll_technique:
  "processAttributesOfAll E t rules L = (None, L1) \<Longrightarrow>
     dynamicTechniqueAttributes L1
       = dynamicTechniqueAttributes L
         @ techniqueScopeExprs E t (concat (map attributeDeclarations rules))"
proof (induction rules arbitrary: L)
  case Nil
  then show ?case by (simp add: techniqueScopeExprs_def)
next
  case (Cons style2 rules)
  from Cons.prems obtain L2 where a: "processAttributes E t style2 L = (None, L2)"
    and r: "processAttributesOfAll E t rules L2 = (None, L1)"
    by (auto split: prod.splits option.splits)
  from Cons.IH [OF r] processAttributes_technique [OF a] show ?case by simp
qed

text \<open>
  What \<^verbatim>\<open>checkStyleDynamicAttributes\<close> leaves in \<^verbatim>\<open>_dynamicTechniqueAttributes\<close>, the
  expressions evaluated for the cache key: when it ends without an exception, the
  expressions that the rules of the chain declare for attributes of technique scope, in the
  order of the chain; in any case, none but these.
\<close>

lemma check_technique_attributes:
  assumes "checkStyleDynamicAttributes E d styleStack n = (None, n1)"
    and "p_dynamicTechniqueAttributes n = None" and "technique d \<noteq> Some ''none''"
  shows "p_dynamicTechniqueAttributes n1
           = Some (techniqueScopeExprs E (technique d) (chainDeclarations styleStack d))"
proof -
  obtain L where p: "processAttributesOfAll E (technique d) (styleStack @ [d])
      \<lparr>staticAttributes = [], dynamicTechniqueAttributes = [],
       dynamicFeatureAttributes = [], dynamicForwardedAttributes = []\<rparr> = (None, L)"
    and n1: "p_dynamicTechniqueAttributes n1 = Some (dynamicTechniqueAttributes L)"
    using assms by (auto simp: checkStyleDynamicAttributes_def split: prod.splits)
  from processAttributesOfAll_technique [OF p] n1 show ?thesis
    by (simp add: chainDeclarations_def)
qed

lemma check_scoped:
  assumes "checkStyleDynamicAttributes E d styleStack n = (err, n1)"
    and "techniqueScoped E styleStack d n"
  shows "techniqueScoped E styleStack d n1"
proof (cases "p_dynamicTechniqueAttributes n \<noteq> None \<or> technique d = Some ''none''")
  case True
  with assms show ?thesis by (simp add: checkStyleDynamicAttributes_def)
next
  case False
  obtain e L where p: "processAttributesOfAll E (technique d) (styleStack @ [d])
      \<lparr>staticAttributes = [], dynamicTechniqueAttributes = [],
       dynamicFeatureAttributes = [], dynamicForwardedAttributes = []\<rparr> = (e, L)"
    by (metis surj_pair)
  with assms(1) False
  have n1: "p_dynamicTechniqueAttributes n1 = Some (dynamicTechniqueAttributes L)"
    by (auto simp: checkStyleDynamicAttributes_def)
  from processAttributesOfAll_scoped [OF p] n1 show ?thesis
    by (auto simp: techniqueScoped_def chainDeclarations_def list_all_iff)
qed

lemma whenMatches_scoped:
  "whenMatches E env d n = (m, n1, msgs) \<Longrightarrow> techniqueScoped E styleStack d n \<Longrightarrow>
     techniqueScoped E styleStack d n1"
  by (auto simp: whenMatches_def techniqueScoped_def split: option.splits sum.splits)

lemma resolveTechnique_scoped:
  assumes "resolveTechnique E env styleStack d n \<sigma> = (r, n1, \<sigma>1)"
    and "techniqueScoped E styleStack d n"
  shows "techniqueScoped E styleStack d n1"
proof -
  obtain e n0 where c: "checkStyleDynamicAttributes E d styleStack n = (e, n0)"
    by (cases "checkStyleDynamicAttributes E d styleStack n")
  from check_scoped [OF c assms(2)] have "techniqueScoped E styleStack d n0" .
  moreover from assms(1) c
  have "p_dynamicTechniqueAttributes n1 = p_dynamicTechniqueAttributes n0"
    by (auto simp: resolveTechnique_def Let_def split: option.splits sum.splits prod.splits)
  ultimately show ?thesis by (simp add: techniqueScoped_def)
qed

text \<open>
  A leaf rule is \<open>techniqueScoped\<close> when the constructor has made it, and stays so through
  every call of \<^verbatim>\<open>processStyle\<close> with the stack of its ancestors.
\<close>

lemma noInternal_scoped: "techniqueScoped E styleStack d (noInternal\<lparr>p_styleSetIndex := i\<rparr>)"
  by (simp add: techniqueScoped_def noInternal_def)

lemma processStyle_scoped:
  assumes "processStyle E env styleStack (Style d n None) \<sigma> = (r, s', \<sigma>')"
    and "techniqueScoped E styleStack d n"
  shows "techniqueScoped E styleStack d (internal s')"
proof -
  obtain matched n1 msgs where w: "whenMatches E env d n = (matched, n1, msgs)"
    by (cases "whenMatches E env d n")
  note k = whenMatches_scoped [OF w assms(2)]
  show ?thesis
  proof (cases "matched \<and> technique d \<noteq> None \<and> technique d \<noteq> Some ''none''")
    case True
    obtain r2 n2 \<sigma>2 where
      rt: "resolveTechnique E env styleStack d n1 (\<sigma>\<lparr>logs := logs \<sigma> @ msgs\<rparr>) = (r2, n2, \<sigma>2)"
      by (metis prod_cases3)
    from assms(1) w True rt have "internal s' = n2"
      by (auto simp: Let_def split: sum.splits)
    with resolveTechnique_scoped [OF rt k] show ?thesis by simp
  next
    case False
    with assms(1) w have "internal s' = n1"
      by (auto simp: Let_def split: option.splits if_splits)
    with k show ?thesis by simp
  qed
qed

text \<open>
  So is every leaf rule at which the walk arrives, in any call on a constructed evaluator:
  the constructor leaves every rule without collected attributes, and a call leaves every
  leaf rule \<open>techniqueScoped\<close> for the stack of its ancestors.
\<close>

lemma processStyle_leaf:
  "processStyle E env styleStack (Style d n None) \<sigma> = (r, s', \<sigma>') \<Longrightarrow>
     \<exists>n'. s' = Style d n' None"
  by (auto simp: Let_def split: prod.splits option.splits if_splits sum.splits)

lemma processStyle_scopedTree:
  "processStyle E env styleStack (s :: ('j, 'x, 'p) style) \<sigma> = (r, s', \<sigma>') \<Longrightarrow>
     scopedTree E styleStack s \<Longrightarrow> scopedTree E styleStack s'"
  "processChildren E env styleStack (ss :: ('j, 'x, 'p) style list) \<sigma> = (r, ss', \<sigma>') \<Longrightarrow>
     scopedTrees E styleStack ss \<Longrightarrow> scopedTrees E styleStack ss'"
proof (induction E env styleStack s \<sigma> and E env styleStack ss \<sigma> arbitrary: r s' \<sigma>' and r ss' \<sigma>'
    rule: processStyle_processChildren.induct)
  case (1 E env styleStack d n kids \<sigma>)
  show ?case
  proof (cases kids)
    case None
    from processStyle_leaf [OF "1.prems"(1) [unfolded None]]
    obtain n' where s': "s' = Style d n' None" by blast
    from "1.prems"(2) None have "techniqueScoped E styleStack d n" by simp
    from processStyle_scoped [OF "1.prems"(1) [unfolded None] this] s' show ?thesis by simp
  next
    case (Some cs)
    obtain matched n1 msgs where w: "whenMatches E env d n = (matched, n1, msgs)"
      by (cases "whenMatches E env d n")
    from "1.prems"(2) Some have sc: "scopedTrees E (styleStack @ [d]) cs" by simp
    show ?thesis
    proof (cases matched)
      case False
      with "1.prems"(1) w Some have "s' = Style d n1 (Some cs)" by simp
      with sc show ?thesis by simp
    next
      case True
      obtain r1 cs' \<sigma>2 where
        c: "processChildren E env (styleStack @ [d]) cs (\<sigma>\<lparr>logs := logs \<sigma> @ msgs\<rparr>) = (r1, cs', \<sigma>2)"
        by (metis prod_cases3)
      from "1.IH" [OF w [symmetric] refl refl _ Some c sc] True
      have "scopedTrees E (styleStack @ [d]) cs'" by simp
      moreover from "1.prems"(1) w Some c True have "s' = Style d n1 (Some cs')" by simp
      ultimately show ?thesis by simp
    qed
  qed
next
  case (2 E env styleStack \<sigma>)
  then show ?case by simp
next
  case (3 E env styleStack currStyle rest \<sigma>)
  obtain r1 s1 \<sigma>1 where a: "processStyle E env styleStack currStyle \<sigma> = (r1, s1, \<sigma>1)"
    by (metis prod_cases3)
  from "3.prems"(2) have sc: "scopedTree E styleStack currStyle" "scopedTrees E styleStack rest"
    by simp_all
  note h1 = "3.IH"(1) [OF a sc(1)]
  show ?case
  proof (cases "r1 = Inr False")
    case True
    obtain r2 rest' \<sigma>2 where c: "processChildren E env styleStack rest \<sigma>1 = (r2, rest', \<sigma>2)"
      by (metis prod_cases3)
    from "3.IH"(2) [OF a [symmetric] _ _ refl c sc(2)] True
    have "scopedTrees E styleStack rest'" by blast
    moreover from "3.prems"(1) a c True have "ss' = s1 # rest'" by simp
    ultimately show ?thesis using h1 by simp
  next
    case False
    with "3.prems"(1) a have "ss' = s1 # rest"
      by (auto split: sum.splits bool.splits)
    with h1 sc(2) show ?thesis by simp
  qed
qed

lemma getMatchingTechniques_scoped:
  assumes "scopedTrees E [] (styleSet ev)"
  shows "scopedTrees E [] (styleSet (snd (getMatchingTechniques E ev env)))"
proof -
  obtain r ss' \<sigma>' where c: "processChildren E env [] (styleSet ev) (startPass ev) = (r, ss', \<sigma>')"
    by (metis prod_cases3)
  from processStyle_scopedTree(2) [OF c assms] getMatchingTechniques_outcome [OF c]
  show ?thesis by simp
qed

lemma afterCalls_scoped:
  "scopedTrees E [] (styleSet ev) \<Longrightarrow> scopedTrees E [] (styleSet (afterCalls E ev envs))"
  by (induction envs arbitrary: ev) (simp_all add: getMatchingTechniques_scoped)

lemma fresh_scoped:
  "\<forall>r\<in>set (allStyles (s :: ('j, 'x, 'p) style)). p_dynamicTechniqueAttributes (internal r) = None \<Longrightarrow>
     scopedTree E styleStack s"
  "\<forall>r\<in>set (allStylesOf (ss :: ('j, 'x, 'p) style list)).
      p_dynamicTechniqueAttributes (internal r) = None \<Longrightarrow>
     scopedTrees E styleStack ss"
  by (induction E styleStack s and E styleStack ss rule: scopedTree_scopedTrees.induct)
    (auto simp: techniqueScoped_def split: option.splits)

lemma cloneStyles_fresh:
  "cloneStyle k = Some (s :: ('j, 'x, 'p) style) \<Longrightarrow>
     \<forall>r\<in>set (allStyles s). p_dynamicTechniqueAttributes (internal r) = None"
  "\<forall>r\<in>set (allStylesOf (cloneStyles ks :: ('j, 'x, 'p) style list)).
     p_dynamicTechniqueAttributes (internal r) = None"
  by (induction k and ks arbitrary: s rule: cloneStyle_cloneStyles.induct)
    (auto simp: noInternal_def split: option.splits)

lemma cdro_fresh:
  "computeDefaultRenderOrder (s :: ('j, 'x, 'p) style) st = (s', st') \<Longrightarrow>
     \<forall>r\<in>set (allStyles s). p_dynamicTechniqueAttributes (internal r) = None \<Longrightarrow>
     \<forall>r\<in>set (allStyles s'). p_dynamicTechniqueAttributes (internal r) = None"
  "computeDefaultRenderOrders (ss :: ('j, 'x, 'p) style list) st = (ss', st') \<Longrightarrow>
     \<forall>r\<in>set (allStylesOf ss). p_dynamicTechniqueAttributes (internal r) = None \<Longrightarrow>
     \<forall>r\<in>set (allStylesOf ss'). p_dynamicTechniqueAttributes (internal r) = None"
proof (induction s st and ss st arbitrary: s' st' and ss' st'
    rule: computeDefaultRenderOrder_computeDefaultRenderOrders.induct)
  case (1 d n kids st)
  obtain d1 st1 where b: "applyRenderOrderBias d st = (d1, st1)" by fastforce
  show ?case
  proof (cases kids)
    case None
    with "1.prems" b show ?thesis by (auto simp: Let_def split: if_splits)
  next
    case (Some cs)
    from cdro_inner [OF "1.prems"(1) [unfolded Some] b]
    obtain cs' where s': "s' = Style d1 n (Some cs')"
      and c: "computeDefaultRenderOrders cs st1 = (cs', st')" by blast
    from "1.prems"(2) Some
    have "\<forall>r\<in>set (allStylesOf cs). p_dynamicTechniqueAttributes (internal r) = None" by simp
    from "1.IH" [OF b [symmetric] Some c this] "1.prems"(2) s' show ?thesis by simp
  qed
next
  case (2 st)
  then show ?case by simp
next
  case (3 s ss st)
  obtain s1 st1 where a: "computeDefaultRenderOrder s st = (s1, st1)" by fastforce
  obtain ss1 st2 where c: "computeDefaultRenderOrders ss st1 = (ss1, st2)" by fastforce
  from "3.prems"(1) a c have ss': "ss' = s1 # ss1" by simp
  from "3.prems"(2) have ok: "\<forall>r\<in>set (allStyles s). p_dynamicTechniqueAttributes (internal r) = None"
    "\<forall>r\<in>set (allStylesOf ss). p_dynamicTechniqueAttributes (internal r) = None" by simp_all
  from "3.IH"(1) [OF a ok(1)] "3.IH"(2) [OF a [symmetric] c ok(2)] ss' show ?case by auto
qed

lemma constructed_scoped:
  assumes "StyleSetEvaluator decls = Inr (ev :: ('j, 'x, 'p) evaluator)"
  shows "scopedTrees E [] (styleSet ev)"
proof -
  from assms obtain ss' st' where
    l: "constructorLoop (map cloneStyle decls) initialCtorState = Inr (ss', st')"
    and ev: "styleSet ev = ss'"
    by (auto simp: StyleSetEvaluator_def split: sum.splits)
  from constructorLoop_Inr [OF l] obtain ss where
    m: "map cloneStyle decls = map Some ss"
    and c: "computeDefaultRenderOrders ss initialCtorState = (ss', st')" by blast
  from cloneStyles_map_Some [OF m] cloneStyles_fresh(2) [of decls, where 'x = 'x and 'p = 'p]
  have "\<forall>r\<in>set (allStylesOf ss). p_dynamicTechniqueAttributes (internal r) = None" by simp
  from fresh_scoped(2) [OF cdro_fresh(2) [OF c this]] ev show ?thesis by simp
qed

lemma scopedTrees_append:
  "scopedTrees E styleStack (xs @ ys) \<longleftrightarrow> scopedTrees E styleStack xs \<and> scopedTrees E styleStack ys"
  by (induction xs) simp_all

lemma reaches_scoped:
  assumes "reaches E env start target following"
  shows "\<And>styleStack ss \<sigma> styleStack' s \<sigma>1.
     start = (styleStack, ss, \<sigma>) \<Longrightarrow> target = (styleStack', s, \<sigma>1) \<Longrightarrow>
     scopedTrees E styleStack ss \<Longrightarrow> scopedTree E styleStack' s"
  using assms
proof (induction rule: reaches.induct)
  case (reaches_here styleStack0 pre \<sigma>0 pre' \<sigma>a s0 post)
  from reaches_here.prems(1,2) have eq: "styleStack = styleStack0" "ss = pre @ s0 # post"
    "styleStack' = styleStack0" "s = s0" by simp_all
  from reaches_here.prems(3) show ?case unfolding eq by (simp add: scopedTrees_append)
next
  case (reaches_child styleStack0 pre \<sigma>0 pre' \<sigma>a d n n1 msgs cs target following post)
  from reaches_child.prems(1) have eq: "styleStack = styleStack0"
    "ss = pre @ Style d n (Some cs) # post" by simp_all
  from reaches_child.prems(3) have "scopedTrees E (styleStack0 @ [d]) cs"
    unfolding eq by (simp add: scopedTrees_append)
  from reaches_child.IH [OF refl reaches_child.prems(2) this] show ?case .
qed

lemma reached_leaf_scoped:
  assumes "StyleSetEvaluator decls = Inr (ev :: ('j, 'x, 'p) evaluator)"
    and "reaches E env ([], styleSet (afterCalls E ev envs), \<sigma>0)
           (styleStack, Style d n None, \<sigma>) following"
  shows "techniqueScoped E styleStack d n"
  using reaches_scoped [OF assms(2) refl refl afterCalls_scoped [OF constructed_scoped [OF assms(1)]]]
  by simp





lemma whenMatches_transfer:
  assumes "whenMatches E env d n1 = (m, n1, msgs)" and "p_whenExpr n2 = p_whenExpr n1"
  shows "whenMatches E env d n2 = (m, n2, msgs)"
proof (cases "when' d")
  case None
  with assms show ?thesis by (simp add: whenMatches_def)
next
  case (Some w)
  show ?thesis
  proof (cases "p_whenExpr n1")
    case None
    with assms(2) have c: "compileWhen E w n2 = compileWhen E w n1"
      by (simp add: compileWhen_def)
    show ?thesis
    proof (cases "compileWhen E w n1")
      case (Inl e)
      with assms(1) Some c show ?thesis by (simp add: whenMatches_def)
    next
      case (Inr x)
      with assms(1) Some have "p_whenExpr n1 = Some x"
        by (cases "Expr_evaluate E x env")
          (auto simp: whenMatches_def dest: arg_cong [where f = p_whenExpr])
      with None show ?thesis by simp
    qed
  next
    case (Some x)
    with assms(2) have c: "compileWhen E w n2 = Inr x" "compileWhen E w n1 = Inr x"
      by (simp_all add: compileWhen_def)
    have "n2\<lparr>p_whenExpr := Some x\<rparr> = n2" using assms(2) Some by simp
    with assms(1) \<open>when' d = Some w\<close> c show ?thesis
      by (cases "Expr_evaluate E x env") (simp_all add: whenMatches_def)
  qed
qed

lemma processStyle_again:
  "processStyle E env styleStack (s :: ('j, 'x, 'p) style) \<sigma> = (Inr b, s', \<sigma>') \<Longrightarrow>
     \<exists>added msgs. result \<sigma>' = result \<sigma> @ added \<and>
       (\<forall>\<tau>. processStyle E env styleStack s' \<tau>
              = (Inr b, s', \<tau>\<lparr>result := result \<tau> @ added, logs := logs \<tau> @ msgs\<rparr>))"
  "processChildren E env styleStack (ss :: ('j, 'x, 'p) style list) \<sigma> = (Inr b, ss', \<sigma>') \<Longrightarrow>
     \<exists>added msgs. result \<sigma>' = result \<sigma> @ added \<and>
       (\<forall>\<tau>. processChildren E env styleStack ss' \<tau>
              = (Inr b, ss', \<tau>\<lparr>result := result \<tau> @ added, logs := logs \<tau> @ msgs\<rparr>))"
proof (induction E env styleStack s \<sigma> and E env styleStack ss \<sigma> arbitrary: b s' \<sigma>' and b ss' \<sigma>'
    rule: processStyle_processChildren.induct)
  case (1 E env styleStack d n kids \<sigma>)
  obtain m n1 msgs where w: "whenMatches E env d n = (m, n1, msgs)"
    by (metis prod_cases3)
  note w' = whenMatches_again [OF w]
  let ?\<sigma>1 = "\<sigma>\<lparr>logs := logs \<sigma> @ msgs\<rparr>"
  show ?case
  proof (cases m)
    case False
    with "1.prems" w have "b = False" "s' = Style d n1 kids" "\<sigma>' = ?\<sigma>1" by simp_all
    with w' False show ?thesis
      by (intro exI [of _ "[]"] exI [of _ msgs]) simp
  next
    case True
    show ?thesis
    proof (cases kids)
      case (Some cs)
      obtain r cs' \<sigma>2 where c: "processChildren E env (styleStack @ [d]) cs ?\<sigma>1 = (r, cs', \<sigma>2)"
        by (metis prod_cases3)
      with "1.prems" w True Some have r: "r = Inr b" and s': "s' = Style d n1 (Some cs')"
        and \<sigma>': "\<sigma>' = \<sigma>2" by simp_all
      from "1.IH" [OF w [symmetric] refl refl _ Some c [unfolded r]] True
      obtain added msgs2 where a: "result \<sigma>2 = result ?\<sigma>1 @ added"
        and again: "\<And>\<tau>. processChildren E env (styleStack @ [d]) cs' \<tau>
              = (Inr b, cs', \<tau>\<lparr>result := result \<tau> @ added, logs := logs \<tau> @ msgs2\<rparr>)"
        by auto
      have "processStyle E env styleStack s' \<tau>
          = (Inr b, s', \<tau>\<lparr>result := result \<tau> @ added, logs := logs \<tau> @ (msgs @ msgs2)\<rparr>)" for \<tau>
        using w' True s' again [of "\<tau>\<lparr>logs := logs \<tau> @ msgs\<rparr>"] by simp
      with a \<sigma>' show ?thesis
        by (intro exI [of _ added] exI [of _ "msgs @ msgs2"]) simp
    next
      case None
      from True w have msgs: "msgs = []" by (auto dest: whenMatches_True_msgs)
      show ?thesis
      proof (cases "technique d")
        case nt: None
        with "1.prems" w True None msgs
        have "b = False" "s' = Style d n1 None" "\<sigma>' = \<sigma>" by simp_all
        with w' True nt msgs show ?thesis
          by (intro exI [of _ "[]"] exI [of _ "[]"]) simp
      next
        case (Some t)
        show ?thesis
        proof (cases "t = ''none''")
          case tn: True
          with "1.prems" w True None msgs Some
          have "b = (final d = Some True)" "s' = Style d n1 None" "\<sigma>' = \<sigma>" by simp_all
          with w' True Some tn msgs show ?thesis
            by (intro exI [of _ "[]"] exI [of _ "[]"]) simp
        next
          case tn: False
          obtain r n2 \<sigma>2 where rt: "resolveTechnique E env styleStack d n1 \<sigma> = (r, n2, \<sigma>2)"
            by (metis prod_cases3)
          with "1.prems" w True None msgs Some tn
          have r: "r = Inr ()" and b: "b = (final d = Some True)"
            and s': "s' = Style d n2 None" and \<sigma>': "\<sigma>' = \<sigma>2"
            by (auto split: sum.splits)
          from resolveTechnique_again [OF rt [unfolded r] refl]
          obtain tech where res: "result \<sigma>2 = result \<sigma> @ [tech]"
            and again: "\<And>styleStack' \<tau>. resolveTechnique E env styleStack' d n2 \<tau>
               = (Inr (), n2, \<tau>\<lparr>result := result \<tau> @ [tech]\<rparr>)"
            by (metis pass.select_convs(1) pass.surjective pass.update_convs(1,2))
          from whenMatches_transfer [OF w' resolveTechnique_whenExpr [OF rt]] True msgs
          have w2': "whenMatches E env d n2 = (True, n2, [])" by simp
          have "processStyle E env styleStack s' \<tau>
              = (Inr b, s', \<tau>\<lparr>result := result \<tau> @ [tech], logs := logs \<tau> @ []\<rparr>)" for \<tau>
            using w2' s' Some tn b again by simp
          with res \<sigma>' show ?thesis
            by (intro exI [of _ "[tech]"] exI [of _ "[]"]) simp
        qed
      qed
    qed
  qed
next
  case (2 E env styleStack \<sigma>)
  then show ?case by (intro exI [of _ "[]"]) simp
next
  case (3 E env styleStack currStyle rest \<sigma>)
  obtain r1 s1 \<sigma>1 where a: "processStyle E env styleStack currStyle \<sigma> = (r1, s1, \<sigma>1)"
    by (metis prod_cases3)
  show ?case
  proof (cases "r1 = Inr False")
    case True
    obtain r2 rest' \<sigma>2 where c: "processChildren E env styleStack rest \<sigma>1 = (r2, rest', \<sigma>2)"
      by (metis prod_cases3)
    with "3.prems" a True have r2: "r2 = Inr b" and ss': "ss' = s1 # rest'" and \<sigma>': "\<sigma>' = \<sigma>2"
      by simp_all
    from "3.IH"(1) [OF a [unfolded True]]
    obtain added1 msgs1 where a1: "result \<sigma>1 = result \<sigma> @ added1"
      and again1: "\<And>\<tau>. processStyle E env styleStack s1 \<tau>
              = (Inr False, s1, \<tau>\<lparr>result := result \<tau> @ added1, logs := logs \<tau> @ msgs1\<rparr>)"
      by auto
    from "3.IH"(2) [OF a [symmetric] _ _ refl c [unfolded r2]] True
    obtain added2 msgs2 where a2: "result \<sigma>2 = result \<sigma>1 @ added2"
      and again2: "\<And>\<tau>. processChildren E env styleStack rest' \<tau>
              = (Inr b, rest', \<tau>\<lparr>result := result \<tau> @ added2, logs := logs \<tau> @ msgs2\<rparr>)"
      by blast
    have "processChildren E env styleStack ss' \<tau>
        = (Inr b, ss', \<tau>\<lparr>result := result \<tau> @ (added1 @ added2), logs := logs \<tau> @ (msgs1 @ msgs2)\<rparr>)"
      for \<tau>
      using ss' again1 [of \<tau>]
        again2 [of "\<tau>\<lparr>result := result \<tau> @ added1, logs := logs \<tau> @ msgs1\<rparr>"]
      by simp
    with a1 a2 \<sigma>' show ?thesis
      by (intro exI [of _ "added1 @ added2"] exI [of _ "msgs1 @ msgs2"]) simp
  next
    case False
    with "3.prems" a have r1: "r1 = Inr True" and b: "b = True" and ss': "ss' = s1 # rest"
      and \<sigma>': "\<sigma>' = \<sigma>1"
      by (auto split: sum.splits bool.splits)
    from "3.IH"(1) [OF a [unfolded r1]]
    obtain added1 msgs1 where a1: "result \<sigma>1 = result \<sigma> @ added1"
      and again1: "\<And>\<tau>. processStyle E env styleStack s1 \<tau>
              = (Inr True, s1, \<tau>\<lparr>result := result \<tau> @ added1, logs := logs \<tau> @ msgs1\<rparr>)"
      by auto
    have "processChildren E env styleStack ss' \<tau>
        = (Inr b, ss', \<tau>\<lparr>result := result \<tau> @ added1, logs := logs \<tau> @ msgs1\<rparr>)" for \<tau>
      using ss' b again1 [of \<tau>] by simp
    with a1 \<sigma>' show ?thesis
      by (intro exI [of _ added1] exI [of _ msgs1]) simp
  qed
qed

text \<open>
  Claim C3: when \<^verbatim>\<open>getMatchingTechniques\<close> has returned a list of techniques for an
  environment, the next call with an equal environment returns the same list, the same
  techniques with the same \<^verbatim>\<open>_index\<close> at every position, and creates no technique.
\<close>

theorem same_environment_same_techniques:
  assumes first: "getMatchingTechniques E ev env1 = (Inr techs, ev1)"
    and equal: "env2 = env1"
  shows "fst (getMatchingTechniques E ev1 env2) = Inr techs \<and>
         styleSet (snd (getMatchingTechniques E ev1 env2)) = styleSet ev1 \<and>
         m_techniques (snd (getMatchingTechniques E ev1 env2)) = m_techniques ev1"
proof -
  obtain r ss' \<sigma>' where c: "processChildren E env1 [] (styleSet ev) (startPass ev) = (r, ss', \<sigma>')"
    by (metis prod_cases3)
  from getMatchingTechniques_outcome [OF c] first obtain b where r: "r = Inr b"
    and techs: "techs = result \<sigma>'"
    and ev1: "ev1 = ev\<lparr>styleSet := ss', m_techniques := techniques \<sigma>', logged := logs \<sigma>'\<rparr>"
    by (cases r) auto
  from processStyle_again(2) [OF c [unfolded r]]
  obtain added msgs where a: "result \<sigma>' = result (startPass ev) @ added"
    and again: "\<And>\<tau>. processChildren E env1 [] ss' \<tau>
              = (Inr b, ss', \<tau>\<lparr>result := result \<tau> @ added, logs := logs \<tau> @ msgs\<rparr>)"
    by blast
  from a have added: "added = result \<sigma>'" by (simp add: startPass_def)
  have "processChildren E env1 [] (styleSet ev1) (startPass ev1)
      = (Inr b, ss', (startPass ev1)\<lparr>result := result (startPass ev1) @ added,
                                    logs := logs (startPass ev1) @ msgs\<rparr>)"
    using again [of "startPass ev1"] ev1 by simp
  from getMatchingTechniques_outcome [OF this] equal added techs ev1 show ?thesis
    by (simp add: startPass_def)
qed

theorem same_environment_same_techniques_witness:
  "(let first = getMatchingTechniques getEngine roadEvaluator redRoad;
        second = getMatchingTechniques getEngine (snd first) redRoad
    in map techniqueIndex (projr (fst first)) = [Some (Finite 0)] \<and>
       first = (Inr (projr (fst first)), snd first) \<and>
       fst second = Inr (projr (fst first)) \<and>
       styleSet (snd second) = styleSet (snd first) \<and>
       m_techniques (snd second) = m_techniques (snd first))"
proof -
  define first where "first = getMatchingTechniques getEngine roadEvaluator redRoad"
  have 0: "map techniqueIndex (projr (fst first)) = [Some (Finite 0)]"
    by (simp add: first_def roadEvaluator_def roadStyles_def ctor_eval walk_eval getEngine_def
        redRoad_def)
  have 1: "getMatchingTechniques getEngine roadEvaluator redRoad = (Inr (projr (fst first)), snd first)"
    by (simp add: first_def roadEvaluator_def roadStyles_def ctor_eval walk_eval getEngine_def
        redRoad_def)
  from same_environment_same_techniques [OF 1 refl] 0 1 show ?thesis
    unfolding Let_def first_def [symmetric] by simp
qed

end
